theory Spec2Isabelle
  imports Main "HOL-Library.Word"
begin

unbundle bit_operations_syntax

section \<open>The decision tree of src/io/tree.cpp\<close>

text \<open>
  The class \<open>Tree\<close> keeps every attribute of a node or a leaf in a \<open>std::vector\<close>
  indexed by the node or leaf id. A vector is a list here; \<open>operator[]\<close> outside the
  vector is undefined behaviour in C++, which every operation below reports as the value
  \<open>Inl Undefined_Behaviour\<close> instead of reading the list out of range.

  \<open>int\<close> is the mathematical integers: every index the operations compute lies inside a
  vector whenever the operation is defined, so no \<open>int\<close> of the program wraps around.
  \<open>~x\<close> is \<open>NOT x\<close>, which on integers is \<open>- x - 1\<close>. \<open>unsigned int\<close> is \<open>32 word\<close>.
  \<open>data_size_t\<close> is declared in a header outside this file, as the 32-bit signed
  \<open>int32_t\<close>; its values are integers here, and the one sum the program forms of two of
  them, in \<open>Split\<close>, is reduced to 32 bits as written out in \<open>data_size_t\<close> below.
  \<open>float\<close> and \<open>score_t\<close> are type parameters: the tree only stores, copies, prints and
  adds these values, and no law of floating point arithmetic is used anywhere.
\<close>

datatype error = Fatal | Length_Error | Undefined_Behaviour

datatype BinType = NumericalBin | CategoricalBin

text \<open>
  The data members, in the order the constructor assigns them. \<open>max_leaves\<close> is \<open>None\<close>
  while the member has never been assigned (the constructor from a string leaves it so).
\<close>

record 'f Tree =
  max_leaves :: "int option"
  num_leaves :: int
  left_child :: "int list"
  right_child :: "int list"
  split_feature :: "int list"
  split_feature_real :: "int list"
  threshold_in_bin :: "32 word list"
  threshold :: "'f list"
  decision_type :: "int list"
  split_gain :: "'f list"
  leaf_parent :: "int list"
  leaf_value :: "'f list"
  leaf_count :: "int list"
  internal_value :: "'f list"
  internal_count :: "int list"
  leaf_depth :: "int list"

text \<open>
  The value a \<open>data_size_t\<close> holds after an arithmetic result \<open>x\<close> is stored in it: \<open>x\<close>
  itself when it lies between \<open>- 2 ^ 31\<close> and \<open>2 ^ 31 - 1\<close>, and otherwise the value of
  the low 32 bits in two's complement, which is what the addition of the compiled code
  leaves (the C++ standard leaves a signed overflow undefined).
\<close>

definition data_size_t :: "int \<Rightarrow> int" where
  "data_size_t x = (x + 2 ^ 31) mod 2 ^ 32 - 2 ^ 31"

definition in_range :: "'a list \<Rightarrow> int \<Rightarrow> bool" where
  "in_range xs i = (0 \<le> i \<and> i < int (length xs))"

text \<open>\<open>std::vector<T>(n)\<close>: \<open>n\<close> value-initialised (zero) elements.\<close>

definition vector :: "int \<Rightarrow> 'a::zero list" where
  "vector n = replicate (nat n) 0"

subsection \<open>Tree::Tree(int max_leaves)\<close>

text \<open>
  With \<open>max_leaves < 1\<close> the size \<open>max_leaves - 1\<close> is negative, the conversion to
  \<open>size_t\<close> makes it larger than any vector may be, and the \<open>std::vector\<close> constructor
  throws.
\<close>

definition Tree_new :: "int \<Rightarrow> error + ('f::zero) Tree" where
  "Tree_new m =
    (if m < 1 then Inl Length_Error
     else Inr \<lparr>
       max_leaves = Some m,
       num_leaves = 1,
       left_child = vector (m - 1),
       right_child = vector (m - 1),
       split_feature = vector (m - 1),
       split_feature_real = vector (m - 1),
       threshold_in_bin = vector (m - 1),
       threshold = vector (m - 1),
       decision_type = vector (m - 1),
       split_gain = vector (m - 1),
       leaf_parent = (vector m)[0 := - 1],
       leaf_value = vector m,
       leaf_count = vector m,
       internal_value = vector (m - 1),
       internal_count = vector (m - 1),
       leaf_depth = (vector m)[0 := 1] \<rparr>)"

subsection \<open>Tree::Split\<close>

text \<open>
  Every subscript of \<open>Split\<close>, in the order of the source: the call is defined when each
  of them is inside its vector.
\<close>

definition Split_defined :: "'f Tree \<Rightarrow> int \<Rightarrow> bool" where
  "Split_defined t leaf =
    (let new_node_idx = num_leaves t - 1 in
     in_range (leaf_parent t) leaf \<and>
     (let parent = leaf_parent t ! nat leaf in
      if parent \<ge> 0
      then in_range (left_child t) parent \<and>
           (if left_child t ! nat parent = NOT leaf then True
            else in_range (right_child t) parent)
      else True) \<and>
     in_range (split_feature t) new_node_idx \<and>
     in_range (split_feature_real t) new_node_idx \<and>
     in_range (threshold_in_bin t) new_node_idx \<and>
     in_range (threshold t) new_node_idx \<and>
     in_range (decision_type t) new_node_idx \<and>
     in_range (split_gain t) new_node_idx \<and>
     in_range (left_child t) new_node_idx \<and>
     in_range (right_child t) new_node_idx \<and>
     in_range (leaf_parent t) (num_leaves t) \<and>
     in_range (internal_value t) new_node_idx \<and>
     in_range (leaf_value t) leaf \<and>
     in_range (internal_count t) new_node_idx \<and>
     in_range (leaf_count t) leaf \<and>
     in_range (leaf_value t) (num_leaves t) \<and>
     in_range (leaf_count t) (num_leaves t) \<and>
     in_range (leaf_depth t) (num_leaves t) \<and>
     in_range (leaf_depth t) leaf)"

text \<open>
  The body of \<open>Split\<close>, statement by statement; each \<open>let\<close> is one assignment of the
  source on the tree so far. The result is the updated tree and the returned leaf id.
\<close>

definition Split ::
  "'f Tree \<Rightarrow> int \<Rightarrow> int \<Rightarrow> BinType \<Rightarrow> 32 word \<Rightarrow> int \<Rightarrow> 'f \<Rightarrow> 'f \<Rightarrow> 'f \<Rightarrow> int \<Rightarrow> int \<Rightarrow> 'f
    \<Rightarrow> error + ('f Tree \<times> int)" where
  "Split t leaf feature bin_type threshold_bin real_feature threshold_float
         left_value right_value left_cnt right_cnt gain =
    (if \<not> Split_defined t leaf then Inl Undefined_Behaviour
     else
       let new_node_idx = num_leaves t - 1;
           parent = leaf_parent t ! nat leaf;
           t = (if parent \<ge> 0
                then (if left_child t ! nat parent = NOT leaf
                      then t\<lparr>left_child := (left_child t)[nat parent := new_node_idx]\<rparr>
                      else t\<lparr>right_child := (right_child t)[nat parent := new_node_idx]\<rparr>)
                else t);
           t = t\<lparr>split_feature := (split_feature t)[nat new_node_idx := feature]\<rparr>;
           t = t\<lparr>split_feature_real := (split_feature_real t)[nat new_node_idx := real_feature]\<rparr>;
           t = t\<lparr>threshold_in_bin := (threshold_in_bin t)[nat new_node_idx := threshold_bin]\<rparr>;
           t = t\<lparr>threshold := (threshold t)[nat new_node_idx := threshold_float]\<rparr>;
           t = (if bin_type = NumericalBin
                then t\<lparr>decision_type := (decision_type t)[nat new_node_idx := 0]\<rparr>
                else t\<lparr>decision_type := (decision_type t)[nat new_node_idx := 1]\<rparr>);
           t = t\<lparr>split_gain := (split_gain t)[nat new_node_idx := gain]\<rparr>;
           t = t\<lparr>left_child := (left_child t)[nat new_node_idx := NOT leaf]\<rparr>;
           t = t\<lparr>right_child := (right_child t)[nat new_node_idx := NOT (num_leaves t)]\<rparr>;
           t = t\<lparr>leaf_parent := (leaf_parent t)[nat leaf := new_node_idx]\<rparr>;
           t = t\<lparr>leaf_parent := (leaf_parent t)[nat (num_leaves t) := new_node_idx]\<rparr>;
           t = t\<lparr>internal_value := (internal_value t)[nat new_node_idx := leaf_value t ! nat leaf]\<rparr>;
           t = t\<lparr>internal_count :=
                 (internal_count t)[nat new_node_idx := data_size_t (left_cnt + right_cnt)]\<rparr>;
           t = t\<lparr>leaf_value := (leaf_value t)[nat leaf := left_value]\<rparr>;
           t = t\<lparr>leaf_count := (leaf_count t)[nat leaf := left_cnt]\<rparr>;
           t = t\<lparr>leaf_value := (leaf_value t)[nat (num_leaves t) := right_value]\<rparr>;
           t = t\<lparr>leaf_count := (leaf_count t)[nat (num_leaves t) := right_cnt]\<rparr>;
           t = t\<lparr>leaf_depth := (leaf_depth t)[nat (num_leaves t) := leaf_depth t ! nat leaf + 1]\<rparr>;
           t = t\<lparr>leaf_depth := (leaf_depth t)[nat leaf := leaf_depth t ! nat leaf + 1]\<rparr>;
           t = t\<lparr>num_leaves := num_leaves t + 1\<rparr>
       in Inr (t, num_leaves t - 1))"


subsection \<open>Sequences of Split calls\<close>

record 'f split_args =
  arg_leaf :: int
  arg_feature :: int
  arg_bin_type :: BinType
  arg_threshold_bin :: "32 word"
  arg_real_feature :: int
  arg_threshold_float :: 'f
  arg_left_value :: 'f
  arg_right_value :: 'f
  arg_left_cnt :: int
  arg_right_cnt :: int
  arg_gain :: 'f

definition Split_call :: "'f Tree \<Rightarrow> 'f split_args \<Rightarrow> error + ('f Tree \<times> int)" where
  "Split_call t a =
     Split t (arg_leaf a) (arg_feature a) (arg_bin_type a) (arg_threshold_bin a)
       (arg_real_feature a) (arg_threshold_float a) (arg_left_value a) (arg_right_value a)
       (arg_left_cnt a) (arg_right_cnt a) (arg_gain a)"

text \<open>
  A call is valid when it splits a live leaf and the tree has room for one more leaf.
  Nothing in \<open>Split\<close> checks this; it is the caller's obligation.
\<close>

definition valid_split :: "'f Tree \<Rightarrow> int \<Rightarrow> bool" where
  "valid_split t leaf =
     (0 \<le> leaf \<and> leaf < num_leaves t \<and>
      (case max_leaves t of None \<Rightarrow> False | Some m \<Rightarrow> num_leaves t < m))"

fun Splits :: "'f Tree \<Rightarrow> 'f split_args list \<Rightarrow> error + 'f Tree" where
  "Splits t [] = Inr t"
| "Splits t (a # as) =
     (case Split_call t a of Inl e \<Rightarrow> Inl e | Inr (t', r) \<Rightarrow> Splits t' as)"

fun valid_splits :: "'f Tree \<Rightarrow> 'f split_args list \<Rightarrow> bool" where
  "valid_splits t [] = True"
| "valid_splits t (a # as) =
     (valid_split t (arg_leaf a) \<and>
      (case Split_call t a of Inl e \<Rightarrow> True | Inr (t', r) \<Rightarrow> valid_splits t' as))"

text \<open>The internal node each call of a sequence writes: \<open>new_node_idx\<close> of that call.\<close>

fun new_nodes :: "'f Tree \<Rightarrow> 'f split_args list \<Rightarrow> int list" where
  "new_nodes t [] = []"
| "new_nodes t (a # as) =
     (num_leaves t - 1) #
     (case Split_call t a of Inl e \<Rightarrow> [] | Inr (t', r) \<Rightarrow> new_nodes t' as)"

text \<open>
  An internal node slot holds a node when one of its child links is set: the vectors
  start zeroed, and no child link of a node is ever 0, the root.
\<close>

definition populated :: "'f Tree \<Rightarrow> nat \<Rightarrow> bool" where
  "populated t i = (left_child t ! i \<noteq> 0 \<or> right_child t ! i \<noteq> 0)"

definition internal_nodes :: "'f Tree \<Rightarrow> nat list" where
  "internal_nodes t = filter (populated t) [0..<length (left_child t)]"

text \<open>The invariant of the trees grown from \<open>Tree_new m\<close>, used in the proofs below.\<close>

definition sizes_ok :: "int \<Rightarrow> 'f Tree \<Rightarrow> bool" where
  "sizes_ok m t =
    (max_leaves t = Some m \<and> 1 \<le> num_leaves t \<and> num_leaves t \<le> m \<and>
     length (left_child t) = nat (m - 1) \<and> length (right_child t) = nat (m - 1) \<and>
     length (split_feature t) = nat (m - 1) \<and> length (split_feature_real t) = nat (m - 1) \<and>
     length (threshold_in_bin t) = nat (m - 1) \<and> length (threshold t) = nat (m - 1) \<and>
     length (decision_type t) = nat (m - 1) \<and> length (split_gain t) = nat (m - 1) \<and>
     length (leaf_parent t) = nat m \<and> length (leaf_value t) = nat m \<and>
     length (leaf_count t) = nat m \<and> length (internal_value t) = nat (m - 1) \<and>
     length (internal_count t) = nat (m - 1) \<and> length (leaf_depth t) = nat m)"

definition links_ok :: "'f Tree \<Rightarrow> bool" where
  "links_ok t =
    (\<forall>l < nat (num_leaves t).
       leaf_parent t ! l < num_leaves t - 1 \<and>
       (0 \<le> leaf_parent t ! l \<longrightarrow>
          (left_child t ! nat (leaf_parent t ! l) = NOT (int l)) \<noteq>
          (right_child t ! nat (leaf_parent t ! l) = NOT (int l))))"

definition slots_ok :: "'f Tree \<Rightarrow> bool" where
  "slots_ok t =
    (\<forall>i < length (left_child t).
       if int i < num_leaves t - 1
       then left_child t ! i \<noteq> 0 \<and> right_child t ! i \<noteq> 0
       else left_child t ! i = 0 \<and> right_child t ! i = 0)"

definition tree_inv :: "int \<Rightarrow> 'f Tree \<Rightarrow> bool" where
  "tree_inv m t = (sizes_ok m t \<and> links_ok t \<and> slots_ok t)"


section \<open>Text form\<close>

subsection \<open>Numbers as text\<close>

text \<open>\<open>operator<<\<close> on an \<open>int\<close>: the decimal digits, after a minus sign when negative.\<close>

definition digit_char :: "nat \<Rightarrow> char" where
  "digit_char d = ''0123456789'' ! d"

function show_nat :: "nat \<Rightarrow> string" where
  "show_nat n = (if n < 10 then [digit_char n] else show_nat (n div 10) @ [digit_char (n mod 10)])"
  by pat_completeness auto
termination
  by (relation "measure (\<lambda>n. n)") auto

declare show_nat.simps [simp del]

definition show_int :: "int \<Rightarrow> string" where
  "show_int i = (if i < 0 then CHR ''-'' # show_nat (nat (- i)) else show_nat (nat i))"

text \<open>
  Modelled from the spec: \<open>Common::Atoi\<close> is outside this file. The spec says only that
  the integers of the text are parsed; the model reads an optional minus sign and the
  decimal digits that follow, up to the first character that is not a digit.
\<close>

definition is_digit :: "char \<Rightarrow> bool" where
  "is_digit c = (48 \<le> (of_char c :: nat) \<and> (of_char c :: nat) \<le> 57)"

fun digits_val :: "nat \<Rightarrow> string \<Rightarrow> nat" where
  "digits_val acc [] = acc"
| "digits_val acc (c # cs) =
     (if is_digit c then digits_val (acc * 10 + (of_char c - 48)) cs else acc)"

definition Atoi :: "string \<Rightarrow> int" where
  "Atoi s =
    (case s of
       [] \<Rightarrow> 0
     | c # r \<Rightarrow> if c = CHR ''-'' then - int (digits_val 0 r) else int (digits_val 0 s))"

text \<open>
  Modelled from the spec: the text form of a \<open>float\<close> ("rendered to a fixed/parseable
  numeric text form"), its parser and \<open>Tree::GetDecisionTypeName\<close> are outside this file
  and are parameters of the model.
\<close>

record 'f text_io =
  show_float :: "'f \<Rightarrow> string"
  read_float :: "string \<Rightarrow> 'f"
  GetDecisionTypeName :: "int \<Rightarrow> string"

subsection \<open>Helpers of namespace Common\<close>

definition endl :: string where
  "endl = [CHR 0x0A]"

text \<open>\<open>std::string::c_str\<close> read back as a C string: the text before the first NUL.\<close>

definition c_str :: "string \<Rightarrow> string" where
  "c_str s = takeWhile (\<lambda>c. c \<noteq> CHR 0x00) s"

text \<open>
  Modelled from the spec: \<open>Common::Split\<close> is outside this file. The pieces of the text
  between the occurrences of the delimiter, empty pieces included, so a text without the
  delimiter is one piece.
\<close>

fun Split_str :: "string \<Rightarrow> char \<Rightarrow> string list" where
  "Split_str [] d = [[]]"
| "Split_str (c # cs) d =
     (let rest = Split_str cs d in
      if c = d then [] # rest else (c # hd rest) # tl rest)"

text \<open>
  Modelled from the spec: \<open>Common::Trim\<close> is outside this file ("trim both sides"):
  white space is removed from both ends.
\<close>

definition is_space :: "char \<Rightarrow> bool" where
  "is_space c = (c \<in> set [CHR '' '', CHR 0x09, CHR 0x0A, CHR 0x0B, CHR 0x0C, CHR 0x0D])"

definition Trim :: "string \<Rightarrow> string" where
  "Trim s = rev (dropWhile is_space (rev (dropWhile is_space s)))"

text \<open>
  Modelled from the spec: \<open>Common::ArrayToString\<close> is outside this file ("each value a
  space-joined sequence"): the text forms of the first \<open>n\<close> elements, the delimiter
  between them.
\<close>

fun join_with :: "char \<Rightarrow> string list \<Rightarrow> string" where
  "join_with d [] = []"
| "join_with d [x] = x"
| "join_with d (x # y # ys) = x @ d # join_with d (y # ys)"

definition ArrayToString :: "('a \<Rightarrow> string) \<Rightarrow> 'a list \<Rightarrow> int \<Rightarrow> char \<Rightarrow> string" where
  "ArrayToString sh arr n d = join_with d (map sh (take (nat n) arr))"

text \<open>
  Modelled from the spec: \<open>Common::StringToArray\<close> is outside this file ("parses each
  array to its implied fixed length"): a vector of \<open>n\<close> elements, the parsed pieces of the
  text in order; an element without a piece keeps the zero the vector starts with, and
  there is no element when \<open>n\<close> is not positive. The spec names no failure of this step.
\<close>

definition StringToArray :: "(string \<Rightarrow> 'a) \<Rightarrow> string \<Rightarrow> char \<Rightarrow> int \<Rightarrow> 'a::zero list" where
  "StringToArray rd str d n =
    (if n \<le> 0 then []
     else let strs = take (nat n) (Split_str (c_str str) d)
          in map rd strs @ replicate (nat n - length strs) 0)"

subsection \<open>Tree::ToString\<close>

definition ToString :: "'f text_io \<Rightarrow> 'f Tree \<Rightarrow> string" where
  "ToString io t =
     ''num_leaves='' @ show_int (num_leaves t) @ endl @
     ''split_feature='' @
       ArrayToString show_int (split_feature_real t) (num_leaves t - 1) CHR '' '' @ endl @
     ''split_gain='' @
       ArrayToString (show_float io) (split_gain t) (num_leaves t - 1) CHR '' '' @ endl @
     ''threshold='' @
       ArrayToString (show_float io) (threshold t) (num_leaves t - 1) CHR '' '' @ endl @
     ''decision_type='' @
       ArrayToString show_int (decision_type t) (num_leaves t - 1) CHR '' '' @ endl @
     ''left_child='' @
       ArrayToString show_int (left_child t) (num_leaves t - 1) CHR '' '' @ endl @
     ''right_child='' @
       ArrayToString show_int (right_child t) (num_leaves t - 1) CHR '' '' @ endl @
     ''leaf_parent='' @
       ArrayToString show_int (leaf_parent t) (num_leaves t) CHR '' '' @ endl @
     ''leaf_value='' @
       ArrayToString (show_float io) (leaf_value t) (num_leaves t) CHR '' '' @ endl @
     ''leaf_count='' @
       ArrayToString show_int (leaf_count t) (num_leaves t) CHR '' '' @ endl @
     ''internal_value='' @
       ArrayToString (show_float io) (internal_value t) (num_leaves t - 1) CHR '' '' @ endl @
     ''internal_count='' @
       ArrayToString show_int (internal_count t) (num_leaves t - 1) CHR '' '' @ endl @
     endl"

subsection \<open>Tree::Tree(const std::string&)\<close>

text \<open>The body of the loop over the lines: one line into the map \<open>key_vals\<close>.\<close>

definition parse_line :: "string \<Rightarrow> (string \<rightharpoonup> string) \<Rightarrow> (string \<rightharpoonup> string)" where
  "parse_line line key_vals =
    (let tmp_strs = Split_str (c_str line) CHR ''='' in
     if length tmp_strs = 2
     then let key = Trim (tmp_strs ! 0); val = Trim (tmp_strs ! 1) in
          if length key > 0 \<and> length val > 0 then key_vals(key \<mapsto> val) else key_vals
     else key_vals)"

definition key_vals_of :: "string \<Rightarrow> (string \<rightharpoonup> string)" where
  "key_vals_of str = fold parse_line (Split_str (c_str str) CHR 0x0A) Map.empty"

text \<open>\<open>unordered_map::count\<close> and \<open>operator[]\<close> (an absent key reads as the empty string).\<close>

definition kv_count :: "(string \<rightharpoonup> string) \<Rightarrow> string \<Rightarrow> nat" where
  "kv_count key_vals k = (case key_vals k of None \<Rightarrow> 0 | Some v \<Rightarrow> 1)"

definition kv_at :: "(string \<rightharpoonup> string) \<Rightarrow> string \<Rightarrow> string" where
  "kv_at key_vals k = (case key_vals k of None \<Rightarrow> [] | Some v \<Rightarrow> v)"

text \<open>
  \<open>Log::Fatal\<close> ends the load: no tree is produced. The members the constructor never
  assigns stay as their default constructors leave them: the three vectors empty,
  \<open>max_leaves\<close> without a value.
\<close>

definition Tree_of_string :: "'f text_io \<Rightarrow> string \<Rightarrow> error + ('f::zero) Tree" where
  "Tree_of_string io str =
    (let key_vals = key_vals_of str in
     if kv_count key_vals ''num_leaves'' \<le> 0 \<or> kv_count key_vals ''split_feature'' \<le> 0
        \<or> kv_count key_vals ''split_gain'' \<le> 0 \<or> kv_count key_vals ''threshold'' \<le> 0
        \<or> kv_count key_vals ''left_child'' \<le> 0 \<or> kv_count key_vals ''right_child'' \<le> 0
        \<or> kv_count key_vals ''leaf_parent'' \<le> 0 \<or> kv_count key_vals ''leaf_value'' \<le> 0
        \<or> kv_count key_vals ''internal_value'' \<le> 0 \<or> kv_count key_vals ''internal_count'' \<le> 0
        \<or> kv_count key_vals ''leaf_count'' \<le> 0 \<or> kv_count key_vals ''decision_type'' \<le> 0
     then Inl Fatal
     else
       let n = Atoi (c_str (kv_at key_vals ''num_leaves'')) in
       Inr \<lparr>
         max_leaves = None,
         num_leaves = n,
         left_child = StringToArray Atoi (kv_at key_vals ''left_child'') CHR '' '' (n - 1),
         right_child = StringToArray Atoi (kv_at key_vals ''right_child'') CHR '' '' (n - 1),
         split_feature = [],
         split_feature_real = StringToArray Atoi (kv_at key_vals ''split_feature'') CHR '' '' (n - 1),
         threshold_in_bin = [],
         threshold = StringToArray (read_float io) (kv_at key_vals ''threshold'') CHR '' '' (n - 1),
         decision_type = StringToArray Atoi (kv_at key_vals ''decision_type'') CHR '' '' (n - 1),
         split_gain = StringToArray (read_float io) (kv_at key_vals ''split_gain'') CHR '' '' (n - 1),
         leaf_parent = StringToArray Atoi (kv_at key_vals ''leaf_parent'') CHR '' '' n,
         leaf_value = StringToArray (read_float io) (kv_at key_vals ''leaf_value'') CHR '' '' n,
         leaf_count = StringToArray Atoi (kv_at key_vals ''leaf_count'') CHR '' '' n,
         internal_value = StringToArray (read_float io) (kv_at key_vals ''internal_value'') CHR '' '' (n - 1),
         internal_count = StringToArray Atoi (kv_at key_vals ''internal_count'') CHR '' '' (n - 1),
         leaf_depth = [] \<rparr>)"

text \<open>The required keys, as the constructor tests them.\<close>

definition required_keys :: "string list" where
  "required_keys =
    [''num_leaves'', ''split_feature'', ''split_gain'', ''threshold'', ''left_child'',
     ''right_child'', ''leaf_parent'', ''leaf_value'', ''internal_value'', ''internal_count'',
     ''leaf_count'', ''decision_type'']"

text \<open>A piece of text that survives splitting and trimming unchanged.\<close>

definition plain_char :: "char \<Rightarrow> bool" where
  "plain_char c = (\<not> is_space c \<and> c \<noteq> CHR ''='' \<and> c \<noteq> CHR 0x00)"

definition token :: "string \<Rightarrow> bool" where
  "token s = (s \<noteq> [] \<and> list_all plain_char s)"


section \<open>JSON export\<close>

text \<open>
  \<open>NodeToJSON\<close> calls itself on the child links, and nothing bounds the recursion: the
  result is an option, \<open>None\<close> when the call does not return. Inside, \<open>Inl\<close> is a
  subscript outside its vector.
\<close>

definition node_defined :: "'f Tree \<Rightarrow> int \<Rightarrow> bool" where
  "node_defined t index =
    (in_range (split_feature_real t) index \<and> in_range (split_gain t) index \<and>
     in_range (threshold t) index \<and> in_range (decision_type t) index \<and>
     in_range (internal_value t) index \<and> in_range (internal_count t) index \<and>
     in_range (left_child t) index \<and> in_range (right_child t) index)"

definition leaf_defined :: "'f Tree \<Rightarrow> int \<Rightarrow> bool" where
  "leaf_defined t index =
    (in_range (leaf_parent t) index \<and> in_range (leaf_value t) index \<and>
     in_range (leaf_count t) index)"

definition leaf_object :: "'f text_io \<Rightarrow> 'f Tree \<Rightarrow> int \<Rightarrow> string" where
  \<open>leaf_object io t index =
     ''{'' @ endl @
     ''"leaf_index":'' @ show_int index @ '','' @ endl @
     ''"leaf_parent":'' @ show_int (leaf_parent t ! nat index) @ '','' @ endl @
     ''"leaf_value":'' @ show_float io (leaf_value t ! nat index) @ '','' @ endl @
     ''"leaf_count":'' @ show_int (leaf_count t ! nat index) @ endl @
     ''}''\<close>

definition node_object :: "'f text_io \<Rightarrow> 'f Tree \<Rightarrow> int \<Rightarrow> string \<Rightarrow> string \<Rightarrow> string" where
  \<open>node_object io t index l r =
     ''{'' @ endl @
     ''"split_index":'' @ show_int index @ '','' @ endl @
     ''"split_feature":'' @ show_int (split_feature_real t ! nat index) @ '','' @ endl @
     ''"split_gain":'' @ show_float io (split_gain t ! nat index) @ '','' @ endl @
     ''"threshold":'' @ show_float io (threshold t ! nat index) @ '','' @ endl @
     ''"decision_type":"'' @ GetDecisionTypeName io (decision_type t ! nat index) @ ''",'' @ endl @
     ''"internal_value":'' @ show_float io (internal_value t ! nat index) @ '','' @ endl @
     ''"internal_count":'' @ show_int (internal_count t ! nat index) @ '','' @ endl @
     ''"left_child":'' @ l @ '','' @ endl @
     ''"right_child":'' @ r @ endl @
     ''}''\<close>

partial_function (option) NodeToJSON ::
  "'f text_io \<Rightarrow> 'f Tree \<Rightarrow> int \<Rightarrow> (error + string) option" where
  "NodeToJSON io t index =
    (if index \<ge> 0
     then
       (if \<not> node_defined t index then Some (Inl Undefined_Behaviour)
        else
          Option.bind (NodeToJSON io t (left_child t ! nat index)) (\<lambda>l.
            case l of
              Inl e \<Rightarrow> Some (Inl e)
            | Inr ls \<Rightarrow>
                Option.bind (NodeToJSON io t (right_child t ! nat index)) (\<lambda>r.
                  case r of
                    Inl e \<Rightarrow> Some (Inl e)
                  | Inr rs \<Rightarrow> Some (Inr (node_object io t index ls rs)))))
     else
       (let index = NOT index in
        if \<not> leaf_defined t index then Some (Inl Undefined_Behaviour)
        else Some (Inr (leaf_object io t index))))"

declare NodeToJSON.simps [code]

definition ToJSON :: "'f text_io \<Rightarrow> 'f Tree \<Rightarrow> (error + string) option" where
  \<open>ToJSON io t =
     Option.bind (NodeToJSON io t 0) (\<lambda>r.
       case r of
         Inl e \<Rightarrow> Some (Inl e)
       | Inr s \<Rightarrow>
           Some (Inr (''"num_leaves":'' @ show_int (num_leaves t) @ '','' @ endl @
                      ''"tree_structure":'' @ s @ endl)))\<close>

section \<open>Batch scoring\<close>

text \<open>
  Modelled from the spec: \<open>Tree::GetLeaf\<close> and the data set with its bin iterators are
  outside this file. \<open>GetLeaf\<close> is a parameter of the model, the leaf id of each row
  ("compute its leaf via 4.4"); so is the conversion to \<open>score_t\<close>. The score buffer is a
  list; a subscript outside the buffer or outside \<open>leaf_value_\<close> is undefined behaviour.
  The statement modelled is
  \<open>score[i] += static_cast<score_t>(leaf_value_[GetLeaf(iterators, i)])\<close>.
\<close>

definition add_score ::
  "('f \<Rightarrow> 's) \<Rightarrow> 'f Tree \<Rightarrow> (int \<Rightarrow> int) \<Rightarrow> ('s::plus) list \<Rightarrow> int \<Rightarrow> error + 's list" where
  "add_score cast t GetLeaf score i =
    (if in_range score i \<and> in_range (leaf_value t) (GetLeaf i)
     then Inr (score[nat i := score ! nat i + cast (leaf_value t ! nat (GetLeaf i))])
     else Inl Undefined_Behaviour)"

text \<open>\<open>for (data_size_t i = start; i < end; ++i)\<close> of the first overload.\<close>

function score_loop ::
  "('f \<Rightarrow> 's) \<Rightarrow> 'f Tree \<Rightarrow> (int \<Rightarrow> int) \<Rightarrow> int \<Rightarrow> int \<Rightarrow> ('s::plus) list \<Rightarrow> error + 's list" where
  "score_loop cast t GetLeaf i end score =
    (if i < end
     then (case add_score cast t GetLeaf score i of
             Inl e \<Rightarrow> Inl e
           | Inr score' \<Rightarrow> score_loop cast t GetLeaf (i + 1) end score')
     else Inr score)"
  by pat_completeness auto
termination
  by (relation "measure (\<lambda>(cast, t, GetLeaf, i, end, score). nat (end - i))") auto

declare score_loop.simps [simp del]

text \<open>
  \<open>score[used_data_indices[i]] += ...\<close> of the second overload, and its loop. The
  iterators of a chunk are made from \<open>used_data_indices[start]\<close> when the data set has
  a feature.
\<close>

definition add_score_used ::
  "('f \<Rightarrow> 's) \<Rightarrow> 'f Tree \<Rightarrow> (int \<Rightarrow> int) \<Rightarrow> int list \<Rightarrow> ('s::plus) list \<Rightarrow> int \<Rightarrow> error + 's list" where
  "add_score_used cast t GetLeaf used_data_indices score i =
    (if in_range used_data_indices i
     then add_score cast t GetLeaf score (used_data_indices ! nat i)
     else Inl Undefined_Behaviour)"

function score_loop_used ::
  "('f \<Rightarrow> 's) \<Rightarrow> 'f Tree \<Rightarrow> (int \<Rightarrow> int) \<Rightarrow> int list \<Rightarrow> int \<Rightarrow> int \<Rightarrow> ('s::plus) list
    \<Rightarrow> error + 's list" where
  "score_loop_used cast t GetLeaf used_data_indices i end score =
    (if i < end
     then (case add_score_used cast t GetLeaf used_data_indices score i of
             Inl e \<Rightarrow> Inl e
           | Inr score' \<Rightarrow> score_loop_used cast t GetLeaf used_data_indices (i + 1) end score')
     else Inr score)"
  by pat_completeness auto
termination
  by (relation "measure (\<lambda>(cast, t, GetLeaf, used, i, end, score). nat (end - i))") auto

declare score_loop_used.simps [simp del]

definition chunk_used ::
  "int \<Rightarrow> ('f \<Rightarrow> 's) \<Rightarrow> 'f Tree \<Rightarrow> (int \<Rightarrow> int) \<Rightarrow> int list \<Rightarrow> int \<Rightarrow> int \<Rightarrow> ('s::plus) list
    \<Rightarrow> error + 's list" where
  "chunk_used num_features cast t GetLeaf used_data_indices start end score =
    (if 0 < num_features \<and> \<not> in_range used_data_indices start then Inl Undefined_Behaviour
     else score_loop_used cast t GetLeaf used_data_indices start end score)"

text \<open>
  Modelled from the spec: \<open>Threading::For\<close> is outside this file. It "partitions the row
  range into contiguous chunks processed independently": the chunks are a parameter of
  the model, a list of pairs \<open>(start, end)\<close> in the order in which they happen to run,
  and the function runs \<open>inner_fun\<close> on each.
\<close>

fun Threading_For :: "(int \<times> int) list \<Rightarrow> (int \<Rightarrow> int \<Rightarrow> 'a \<Rightarrow> error + 'a) \<Rightarrow> 'a \<Rightarrow> error + 'a" where
  "Threading_For [] inner_fun s = Inr s"
| "Threading_For ((start, end) # chunks) inner_fun s =
     (case inner_fun start end s of
        Inl e \<Rightarrow> Inl e
      | Inr s' \<Rightarrow> Threading_For chunks inner_fun s')"

definition AddPredictionToScore ::
  "(int \<times> int) list \<Rightarrow> ('f \<Rightarrow> 's) \<Rightarrow> 'f Tree \<Rightarrow> (int \<Rightarrow> int) \<Rightarrow> ('s::plus) list \<Rightarrow> error + 's list" where
  "AddPredictionToScore chunks cast t GetLeaf score =
     Threading_For chunks (score_loop cast t GetLeaf) score"

definition AddPredictionToScore_used ::
  "(int \<times> int) list \<Rightarrow> int \<Rightarrow> ('f \<Rightarrow> 's) \<Rightarrow> 'f Tree \<Rightarrow> (int \<Rightarrow> int) \<Rightarrow> int list \<Rightarrow> ('s::plus) list
    \<Rightarrow> error + 's list" where
  "AddPredictionToScore_used chunks num_features cast t GetLeaf used_data_indices score =
     Threading_For chunks (chunk_used num_features cast t GetLeaf used_data_indices) score"

text \<open>
  The chunks \<open>Threading::For\<close> may make of the range from 0 to \<open>num_data\<close>: none is
  empty, and the rows of all of them are the rows of the range, each once.
\<close>

definition chunk_rows :: "(int \<times> int) list \<Rightarrow> int list" where
  "chunk_rows chunks = concat (map (\<lambda>(start, end). [start..end - 1]) chunks)"

definition chunks_of :: "int \<Rightarrow> (int \<times> int) list \<Rightarrow> bool" where
  "chunks_of num_data chunks =
    (list_all (\<lambda>(start, end). start < end) chunks \<and>
     distinct (chunk_rows chunks) \<and> set (chunk_rows chunks) = {0..<num_data})"

text \<open>
  What the spec compares batch scoring with: one row after the other, from a list of
  rows, each adding its leaf's value to its own slot.
\<close>

fun score_rows ::
  "('f \<Rightarrow> 's) \<Rightarrow> 'f Tree \<Rightarrow> (int \<Rightarrow> int) \<Rightarrow> int list \<Rightarrow> ('s::plus) list \<Rightarrow> error + 's list" where
  "score_rows cast t GetLeaf [] score = Inr score"
| "score_rows cast t GetLeaf (i # rows) score =
     (case add_score cast t GetLeaf score i of
        Inl e \<Rightarrow> Inl e
      | Inr score' \<Rightarrow> score_rows cast t GetLeaf rows score')"


section \<open>Notions used in the statements and proofs about the text form\<close>

text \<open>
  A line that the loop of the constructor skips: it does not split into exactly two
  pieces at \<open>=\<close>, or its key or its value is empty after trimming.
\<close>

definition malformed :: "string \<Rightarrow> bool" where
  "malformed line =
    (let tmp_strs = Split_str (c_str line) CHR ''='' in
     length tmp_strs \<noteq> 2 \<or> length (Trim (tmp_strs ! 0)) = 0 \<or>
     length (Trim (tmp_strs ! 1)) = 0)"

text \<open>A position of a text where a line starts.\<close>

definition line_start :: "string \<Rightarrow> bool" where
  "line_start a = (a = [] \<or> last a = CHR 0x0A)"

text \<open>
  The lines \<open>ToString\<close> writes, as pairs of key and value, and what the constructor
  makes of such a line: an entry of the map unless the value is empty.
\<close>

definition ToString_lines :: "'f text_io \<Rightarrow> 'f Tree \<Rightarrow> (string \<times> string) list" where
  "ToString_lines io t =
    [(''num_leaves'', show_int (num_leaves t)),
     (''split_feature'',
        ArrayToString show_int (split_feature_real t) (num_leaves t - 1) CHR '' ''),
     (''split_gain'', ArrayToString (show_float io) (split_gain t) (num_leaves t - 1) CHR '' ''),
     (''threshold'', ArrayToString (show_float io) (threshold t) (num_leaves t - 1) CHR '' ''),
     (''decision_type'', ArrayToString show_int (decision_type t) (num_leaves t - 1) CHR '' ''),
     (''left_child'', ArrayToString show_int (left_child t) (num_leaves t - 1) CHR '' ''),
     (''right_child'', ArrayToString show_int (right_child t) (num_leaves t - 1) CHR '' ''),
     (''leaf_parent'', ArrayToString show_int (leaf_parent t) (num_leaves t) CHR '' ''),
     (''leaf_value'', ArrayToString (show_float io) (leaf_value t) (num_leaves t) CHR '' ''),
     (''leaf_count'', ArrayToString show_int (leaf_count t) (num_leaves t) CHR '' ''),
     (''internal_value'',
        ArrayToString (show_float io) (internal_value t) (num_leaves t - 1) CHR '' ''),
     (''internal_count'',
        ArrayToString show_int (internal_count t) (num_leaves t - 1) CHR '' '')]"

definition kv_line :: "string \<times> string \<Rightarrow> string" where
  "kv_line p = fst p @ ''='' @ snd p @ endl"

definition kv_put :: "string \<times> string \<Rightarrow> (string \<rightharpoonup> string) \<Rightarrow> (string \<rightharpoonup> string)" where
  "kv_put p m = (if snd p = [] then m else m(fst p \<mapsto> snd p))"

definition value_ok :: "string \<Rightarrow> bool" where
  "value_ok v =
    (v = [] \<or>
     (CHR ''='' \<notin> set v \<and> CHR 0x00 \<notin> set v \<and> CHR 0x0A \<notin> set v \<and>
      \<not> is_space (hd v) \<and> \<not> is_space (last v)))"

section \<open>An instance of the parameters\<close>

text \<open>
  Values that are integers, printed in decimal: an instance of the parameters on which
  the model runs, for the concrete trees of the examples below.
\<close>

definition int_io :: "int text_io" where
  "int_io = \<lparr> show_float = show_int, read_float = Atoi,
              GetDecisionTypeName = (\<lambda>d. if d = 0 then ''no_greater'' else ''is'') \<rparr>"

definition args0 :: "int split_args" where
  "args0 = \<lparr> arg_leaf = 0, arg_feature = 2, arg_bin_type = NumericalBin,
             arg_threshold_bin = 7, arg_real_feature = 5, arg_threshold_float = 15,
             arg_left_value = 11, arg_right_value = 12, arg_left_cnt = 3, arg_right_cnt = 4,
             arg_gain = 9 \<rparr>"

definition args1 :: "int split_args" where
  "args1 = \<lparr> arg_leaf = 1, arg_feature = 1, arg_bin_type = CategoricalBin,
             arg_threshold_bin = 3, arg_real_feature = 4, arg_threshold_float = 25,
             arg_left_value = 21, arg_right_value = 22, arg_left_cnt = 1, arg_right_cnt = 3,
             arg_gain = 8 \<rparr>"

section \<open>Properties of Split\<close>

subsection \<open>The effect of one call\<close>

lemma Split_closed:
  "Split_defined t leaf \<Longrightarrow>
   Split t leaf feature bin_type threshold_bin real_feature threshold_float
        left_value right_value left_cnt right_cnt gain =
   Inr (t\<lparr> num_leaves := num_leaves t + 1,
           left_child :=
             (if leaf_parent t ! nat leaf \<ge> 0 \<and>
                 left_child t ! nat (leaf_parent t ! nat leaf) = NOT leaf
              then (left_child t)[nat (leaf_parent t ! nat leaf) := num_leaves t - 1]
              else left_child t)
             [nat (num_leaves t - 1) := NOT leaf],
           right_child :=
             (if leaf_parent t ! nat leaf \<ge> 0 \<and>
                 left_child t ! nat (leaf_parent t ! nat leaf) \<noteq> NOT leaf
              then (right_child t)[nat (leaf_parent t ! nat leaf) := num_leaves t - 1]
              else right_child t)
             [nat (num_leaves t - 1) := NOT (num_leaves t)],
           split_feature := (split_feature t)[nat (num_leaves t - 1) := feature],
           split_feature_real := (split_feature_real t)[nat (num_leaves t - 1) := real_feature],
           threshold_in_bin := (threshold_in_bin t)[nat (num_leaves t - 1) := threshold_bin],
           threshold := (threshold t)[nat (num_leaves t - 1) := threshold_float],
           decision_type :=
             (decision_type t)[nat (num_leaves t - 1) := (if bin_type = NumericalBin then 0 else 1)],
           split_gain := (split_gain t)[nat (num_leaves t - 1) := gain],
           leaf_parent :=
             (leaf_parent t)[nat leaf := num_leaves t - 1, nat (num_leaves t) := num_leaves t - 1],
           leaf_value := (leaf_value t)[nat leaf := left_value, nat (num_leaves t) := right_value],
           leaf_count := (leaf_count t)[nat leaf := left_cnt, nat (num_leaves t) := right_cnt],
           internal_value := (internal_value t)[nat (num_leaves t - 1) := leaf_value t ! nat leaf],
           internal_count :=
             (internal_count t)[nat (num_leaves t - 1) := data_size_t (left_cnt + right_cnt)],
           leaf_depth :=
             (leaf_depth t)
               [nat (num_leaves t) := leaf_depth t ! nat leaf + 1,
                nat leaf :=
                  (leaf_depth t)[nat (num_leaves t) := leaf_depth t ! nat leaf + 1] ! nat leaf + 1]
         \<rparr>, num_leaves t)"
  unfolding Split_def
  apply (cases "leaf_parent t ! nat leaf \<ge> 0";
         cases "left_child t ! nat (leaf_parent t ! nat leaf) = NOT leaf";
         cases "bin_type = NumericalBin")
  apply (simp_all add: Let_def)
  done

lemma Split_Inr_defined:
  "Split t leaf feature bin_type threshold_bin real_feature threshold_float
        left_value right_value left_cnt right_cnt gain = Inr (t', r) \<Longrightarrow> Split_defined t leaf"
  by (cases "Split_defined t leaf") (simp_all add: Split_def)

lemma Tree_new_Inr: "1 \<le> m \<Longrightarrow> \<exists>t0. Tree_new m = Inr t0"
  by (simp add: Tree_new_def)

lemma fresh_fields:
  assumes "Tree_new m = Inr t0"
  shows "1 \<le> m" "max_leaves t0 = Some m" "num_leaves t0 = 1"
    "left_child t0 = replicate (nat (m - 1)) 0" "right_child t0 = replicate (nat (m - 1)) 0"
    "leaf_parent t0 = (replicate (nat m) 0)[0 := - 1]"
    "leaf_depth t0 = (replicate (nat m) 0)[0 := 1]"
    "leaf_count t0 = replicate (nat m) 0"
    "leaf_value t0 = replicate (nat m) 0"
    "sizes_ok m t0"
  using assms by (auto simp: Tree_new_def vector_def sizes_ok_def split: if_splits)

lemma sizes_ok_defined:
  "sizes_ok m t \<Longrightarrow> 0 \<le> leaf \<Longrightarrow> leaf < num_leaves t \<Longrightarrow> num_leaves t < m \<Longrightarrow>
   leaf_parent t ! nat leaf < num_leaves t - 1 \<Longrightarrow> Split_defined t leaf"
  by (simp add: sizes_ok_def Split_defined_def in_range_def Let_def)

lemma fresh_defined: "2 \<le> m \<Longrightarrow> Tree_new m = Inr t0 \<Longrightarrow> Split_defined t0 0"
  by (rule sizes_ok_defined[where m = m]) (simp_all add: fresh_fields)

lemma fresh_split_ex:
  "2 \<le> m \<Longrightarrow>
   \<exists>t0 t. (Tree_new m :: error + ('f::zero) Tree) = Inr t0 \<and>
     Split t0 0 feature bin_type threshold_bin real_feature threshold_float
        left_value right_value left_cnt right_cnt gain = Inr (t, 1)"
proof -
  assume m: "2 \<le> m"
  then obtain t0 :: "'f Tree" where t0: "Tree_new m = Inr t0"
    using Tree_new_Inr[of m] by auto
  have d: "Split_defined t0 0" using m t0 by (rule fresh_defined)
  show ?thesis
    by (rule exI[of _ t0]) (simp add: t0 Split_closed[OF d] fresh_fields[OF t0])
qed

subsection \<open>The invariant of the grown trees\<close>

lemma fresh_split_fields:
  "2 \<le> m \<Longrightarrow>
   \<exists>t0 t. (Tree_new m :: error + ('f::zero) Tree) = Inr t0 \<and>
     num_leaves t0 = 1 \<and> leaf_depth t0 ! 0 = 1 \<and> leaf_parent t0 ! 0 = - 1 \<and>
     Split t0 0 feature bin_type threshold_bin real_feature threshold_float
        left_value right_value left_cnt right_cnt gain = Inr (t, 1) \<and>
     num_leaves t = 2 \<and> left_child t ! 0 = - 1 \<and> right_child t ! 0 = - 2 \<and>
     leaf_parent t ! 0 = 0 \<and> leaf_parent t ! 1 = 0 \<and>
     leaf_depth t ! 1 = leaf_depth t0 ! 0 + 1"
proof -
  assume m: "2 \<le> m"
  then obtain t0 :: "'f Tree" where t0: "Tree_new m = Inr t0"
    using Tree_new_Inr[of m] by auto
  note f = fresh_fields[OF t0]
  have d: "Split_defined t0 0" using m t0 by (rule fresh_defined)
  have n: "nat m = Suc (Suc (nat (m - 2)))" "nat (m - 1) = Suc (nat (m - 2))"
    using m by auto
  show ?thesis
    apply (rule exI[of _ t0])
    apply (simp add: t0 Split_closed[OF d] f)
    apply (simp add: n)
    done
qed

lemma tree_inv_fresh: "Tree_new m = Inr t0 \<Longrightarrow> tree_inv m t0"
  unfolding tree_inv_def
  apply (intro conjI)
    apply (rule fresh_fields(10), assumption)
   apply (simp add: links_ok_def fresh_fields)
   apply (frule fresh_fields(1))
   apply (simp add: nat_eq_iff)
  apply (simp add: slots_ok_def fresh_fields)
  done

lemma valid_split_defined:
  assumes inv: "tree_inv m t" and v: "valid_split t leaf"
  shows "Split_defined t leaf"
proof -
  have s: "sizes_ok m t" and l: "links_ok t" using inv by (simp_all add: tree_inv_def)
  have ml: "max_leaves t = Some m" using s by (simp add: sizes_ok_def)
  have b: "0 \<le> leaf" "leaf < num_leaves t" "num_leaves t < m"
    using v ml by (simp_all add: valid_split_def)
  have "nat leaf < nat (num_leaves t)" using b by simp
  then have "leaf_parent t ! nat leaf < num_leaves t - 1"
    using l by (simp add: links_ok_def)
  then show ?thesis using s b by (intro sizes_ok_defined[where m = m])
qed


lemma Split_fields:
  assumes d: "Split_defined t leaf"
    and s: "Split t leaf feature bin_type threshold_bin real_feature threshold_float
        left_value right_value left_cnt right_cnt gain = Inr (t', r)"
  shows "r = num_leaves t" "num_leaves t' = num_leaves t + 1" "max_leaves t' = max_leaves t"
    "left_child t' =
       (if leaf_parent t ! nat leaf \<ge> 0 \<and>
           left_child t ! nat (leaf_parent t ! nat leaf) = NOT leaf
        then (left_child t)[nat (leaf_parent t ! nat leaf) := num_leaves t - 1]
        else left_child t)
       [nat (num_leaves t - 1) := NOT leaf]"
    "right_child t' =
       (if leaf_parent t ! nat leaf \<ge> 0 \<and>
           left_child t ! nat (leaf_parent t ! nat leaf) \<noteq> NOT leaf
        then (right_child t)[nat (leaf_parent t ! nat leaf) := num_leaves t - 1]
        else right_child t)
       [nat (num_leaves t - 1) := NOT (num_leaves t)]"
    "leaf_parent t' =
       (leaf_parent t)[nat leaf := num_leaves t - 1, nat (num_leaves t) := num_leaves t - 1]"
  using s unfolding Split_closed[OF d] by auto

lemma Split_lengths:
  assumes d: "Split_defined t leaf"
    and s: "Split t leaf feature bin_type threshold_bin real_feature threshold_float
        left_value right_value left_cnt right_cnt gain = Inr (t', r)"
  shows "length (left_child t') = length (left_child t)"
    "length (right_child t') = length (right_child t)"
    "length (split_feature t') = length (split_feature t)"
    "length (split_feature_real t') = length (split_feature_real t)"
    "length (threshold_in_bin t') = length (threshold_in_bin t)"
    "length (threshold t') = length (threshold t)"
    "length (decision_type t') = length (decision_type t)"
    "length (split_gain t') = length (split_gain t)"
    "length (leaf_parent t') = length (leaf_parent t)"
    "length (leaf_value t') = length (leaf_value t)"
    "length (leaf_count t') = length (leaf_count t)"
    "length (internal_value t') = length (internal_value t)"
    "length (internal_count t') = length (internal_count t)"
    "length (leaf_depth t') = length (leaf_depth t)"
  using s unfolding Split_closed[OF d] by auto

lemma Split_sizes_ok:
  assumes d: "Split_defined t leaf"
    and s: "Split t leaf feature bin_type threshold_bin real_feature threshold_float
        left_value right_value left_cnt right_cnt gain = Inr (t', r)"
    and z: "sizes_ok m t" and c: "num_leaves t < m"
  shows "sizes_ok m t'"
  using z c unfolding sizes_ok_def Split_lengths[OF d s] Split_fields(2,3)[OF d s]
  by simp

lemma Split_links_ok:
  assumes d: "Split_defined t leaf"
    and s: "Split t leaf feature bin_type threshold_bin real_feature threshold_float
        left_value right_value left_cnt right_cnt gain = Inr (t', r)"
    and z: "sizes_ok m t" and lk: "links_ok t"
    and b: "0 \<le> leaf" "leaf < num_leaves t" "num_leaves t < m"
  shows "links_ok t'"
proof -
  note f = Split_fields[OF d s]
  define n where "n = num_leaves t"
  define p where "p = leaf_parent t ! nat leaf"
  have len: "length (left_child t) = nat (m - 1)" "length (right_child t) = nat (m - 1)"
    "length (leaf_parent t) = nat m"
    using z by (simp_all add: sizes_ok_def)
  have n1: "1 \<le> n" using z by (simp add: sizes_ok_def n_def)
  have pl: "p < n - 1"
    using lk b by (simp add: links_ok_def p_def n_def)
  have pleaf: "0 \<le> p \<Longrightarrow> (left_child t ! nat p = NOT leaf) \<noteq> (right_child t ! nat p = NOT leaf)"
    using lk b by (auto simp add: links_ok_def p_def n_def dest!: spec[of _ "nat leaf"])
  show ?thesis
    unfolding links_ok_def
  proof (intro allI impI)
    fix l
    assume l: "l < nat (num_leaves t')"
    then have ln: "l < nat n \<or> l = nat n" by (auto simp: f n_def)
    consider (leaf) "l = nat leaf" | (new) "l = nat n" | (other) "l < nat n" "l \<noteq> nat leaf"
      using ln by blast
    then show "leaf_parent t' ! l < num_leaves t' - 1 \<and>
       (0 \<le> leaf_parent t' ! l \<longrightarrow>
          (left_child t' ! nat (leaf_parent t' ! l) = NOT (int l)) \<noteq>
          (right_child t' ! nat (leaf_parent t' ! l) = NOT (int l)))"
    proof cases
      case leaf
      have pp: "leaf_parent t' ! l = n - 1"
        using b len leaf by (simp add: f n_def nth_list_update)
      show ?thesis
        using b len n1 leaf unfolding pp
        by (simp add: f n_def[symmetric] not_int_def)
    next
      case new
      have pp: "leaf_parent t' ! l = n - 1"
        using b len new by (simp add: f n_def nth_list_update)
      show ?thesis
        using b len n1 new unfolding pp
        by (simp add: f n_def[symmetric] not_int_def)
    next
      case other
      define q where "q = leaf_parent t ! l"
      have pp: "leaf_parent t' ! l = q"
        using b len other by (simp add: f n_def[symmetric] nth_list_update q_def nat_eq_iff)
      have ql: "q < n - 1"
        using lk other by (simp add: links_ok_def q_def n_def)
      have qi: "0 \<le> q \<Longrightarrow> (left_child t ! nat q = NOT (int l)) \<noteq> (right_child t ! nat q = NOT (int l))"
        using lk other by (simp add: links_ok_def q_def n_def)
      have ne: "NOT (int l) \<noteq> NOT leaf" using other b by (auto simp: not_int_def)
      have neg: "NOT (int l) \<noteq> n - 1" using n1 by (simp add: not_int_def)
      show ?thesis
        unfolding pp
      proof (intro conjI impI)
        show "q < num_leaves t' - 1" using ql by (simp add: f n_def)
      next
        assume q0: "0 \<le> q"
        have qn: "nat q \<noteq> nat (n - 1)" using q0 ql by simp
        show "(left_child t' ! nat q = NOT (int l)) \<noteq> (right_child t' ! nat q = NOT (int l))"
        proof (cases "q = p")
          case True
          then have p0: "0 \<le> p" using q0 by simp
          have pr: "nat p < nat (m - 1)" using p0 pl b n_def by simp
          show ?thesis
            using qi[OF q0] pleaf[OF p0] ne neg qn pr True len
            by (auto simp add: f p_def[symmetric] n_def[symmetric] nth_list_update)
        next
          case False
          then have "nat q \<noteq> nat p \<or> p < 0" using q0 by auto
          then show ?thesis
            using qi[OF q0] qn
            by (auto simp add: f p_def[symmetric] n_def[symmetric] nth_list_update)
        qed
      qed
    qed
  qed
qed


lemma Split_slots_ok:
  assumes d: "Split_defined t leaf"
    and s: "Split t leaf feature bin_type threshold_bin real_feature threshold_float
        left_value right_value left_cnt right_cnt gain = Inr (t', r)"
    and z: "sizes_ok m t" and lk: "links_ok t" and sl: "slots_ok t"
    and b: "0 \<le> leaf" "leaf < num_leaves t" "num_leaves t < m"
  shows "slots_ok t'"
proof -
  note f = Split_fields[OF d s]
  define n where "n = num_leaves t"
  define p where "p = leaf_parent t ! nat leaf"
  have len: "length (left_child t) = nat (m - 1)" "length (right_child t) = nat (m - 1)"
    using z by (simp_all add: sizes_ok_def)
  have n1: "1 \<le> n" using z by (simp add: sizes_ok_def n_def)
  have pl: "p < n - 1"
    using lk b by (simp add: links_ok_def p_def n_def)
  have old: "\<And>i. i < nat (m - 1) \<Longrightarrow>
      (if int i < n - 1 then left_child t ! i \<noteq> 0 \<and> right_child t ! i \<noteq> 0
       else left_child t ! i = 0 \<and> right_child t ! i = 0)"
    using sl len by (simp add: slots_ok_def n_def)
  show ?thesis
    unfolding slots_ok_def
  proof (intro allI impI)
    fix i
    assume "i < length (left_child t')"
    then have i: "i < nat (m - 1)" using len by (simp add: Split_lengths[OF d s])
    consider (new) "i = nat (n - 1)" | (below) "int i < n - 1" | (above) "n - 1 < int i"
      using n1 by fastforce
    then show "if int i < num_leaves t' - 1
       then left_child t' ! i \<noteq> 0 \<and> right_child t' ! i \<noteq> 0
       else left_child t' ! i = 0 \<and> right_child t' ! i = 0"
    proof cases
      case new
      then show ?thesis
        using i len b n1
        by (simp add: f n_def[symmetric] p_def[symmetric] not_int_def)
    next
      case below
      then have ne: "i \<noteq> nat (n - 1)" using n1 by auto
      have o: "left_child t ! i \<noteq> 0" "right_child t ! i \<noteq> 0"
        using old[OF i] below by simp_all
      have u: "(left_child t)[nat p := n - 1] ! i \<noteq> 0"
        "(right_child t)[nat p := n - 1] ! i \<noteq> 0" if "0 \<le> p"
      proof -
        have il: "nat p < length (left_child t)" "nat p < length (right_child t)"
          using that pl b len by (simp_all add: n_def)
        have nz: "n - 1 \<noteq> 0" using that pl by simp
        show "(left_child t)[nat p := n - 1] ! i \<noteq> 0"
          unfolding nth_list_update[OF il(1)] using nz o by simp
        show "(right_child t)[nat p := n - 1] ! i \<noteq> 0"
          unfolding nth_list_update[OF il(2)] using nz o by simp
      qed
      show ?thesis
        using below ne o u
        by (auto simp add: f n_def[symmetric] p_def[symmetric])
    next
      case above
      then have ne: "i \<noteq> nat (n - 1)" using n1 by auto
      have o: "left_child t ! i = 0" "right_child t ! i = 0"
        using old[OF i] above by simp_all
      have ip: "0 \<le> p \<Longrightarrow> i \<noteq> nat p" using pl above by auto
      show ?thesis
        using above ne o ip
        by (auto simp add: f n_def[symmetric] p_def[symmetric] nth_list_update)
    qed
  qed
qed

lemma tree_inv_Split:
  assumes inv: "tree_inv m t" and v: "valid_split t leaf"
  shows "\<exists>t'. Split t leaf feature bin_type threshold_bin real_feature threshold_float
        left_value right_value left_cnt right_cnt gain = Inr (t', num_leaves t) \<and>
      tree_inv m t' \<and> num_leaves t' = num_leaves t + 1"
proof -
  have d: "Split_defined t leaf" using inv v by (rule valid_split_defined)
  have z: "sizes_ok m t" and lk: "links_ok t" and sl: "slots_ok t"
    using inv by (simp_all add: tree_inv_def)
  have ml: "max_leaves t = Some m" using z by (simp add: sizes_ok_def)
  have b: "0 \<le> leaf" "leaf < num_leaves t" "num_leaves t < m"
    using v ml by (simp_all add: valid_split_def)
  obtain t' r where s: "Split t leaf feature bin_type threshold_bin real_feature threshold_float
        left_value right_value left_cnt right_cnt gain = Inr (t', r)"
    unfolding Split_closed[OF d] by blast
  have r: "r = num_leaves t" and n: "num_leaves t' = num_leaves t + 1"
    using Split_fields(1,2)[OF d s] by simp_all
  have "tree_inv m t'"
    unfolding tree_inv_def
    using Split_sizes_ok[OF d s z b(3)] Split_links_ok[OF d s z lk b]
      Split_slots_ok[OF d s z lk sl b]
    by simp
  then show ?thesis using s r n by blast
qed

lemma Splits_inv:
  "tree_inv m t \<Longrightarrow> valid_splits t as \<Longrightarrow>
   \<exists>t'. Splits t as = Inr t' \<and> tree_inv m t' \<and>
     num_leaves t' = num_leaves t + int (length as) \<and>
     new_nodes t as = map (\<lambda>k. num_leaves t - 1 + int k) [0..<length as]"
proof (induction as arbitrary: t)
  case Nil
  then show ?case by simp
next
  case (Cons a as)
  have v: "valid_split t (arg_leaf a)" using Cons.prems(2) by simp
  obtain t1 where s: "Split_call t a = Inr (t1, num_leaves t)"
    and i1: "tree_inv m t1" and n1: "num_leaves t1 = num_leaves t + 1"
    unfolding Split_call_def using tree_inv_Split[OF Cons.prems(1) v] by blast
  have v1: "valid_splits t1 as" using Cons.prems(2) s by simp
  obtain t' where r: "Splits t1 as = Inr t'" and i': "tree_inv m t'"
    and n': "num_leaves t' = num_leaves t1 + int (length as)"
    and nn: "new_nodes t1 as = map (\<lambda>k. num_leaves t1 - 1 + int k) [0..<length as]"
    using Cons.IH[OF i1 v1] by blast
  have "map (\<lambda>k. num_leaves t - 1 + int k) [0..<length (a # as)] =
        (num_leaves t - 1) # map (\<lambda>k. num_leaves t1 - 1 + int k) [0..<length as]"
    by (simp add: upt_conv_Cons map_Suc_upt[symmetric] n1 del: upt_Suc)
  then show ?case using s r i' n' nn n1 by simp
qed

lemma filter_upt_below:
  assumes "j \<le> k" and "\<And>i. i < k \<Longrightarrow> P i = (i < j)"
  shows "filter P [0..<k] = [0..<j]"
proof -
  have "[0..<k] = [0..<j] @ [j..<k]"
    using assms(1) by (metis le_add_diff_inverse upt_add_eq_append zero_le)
  moreover have "filter P [0..<j] = [0..<j]" using assms by (auto simp: filter_id_conv)
  moreover have "filter P [j..<k] = []" using assms by (auto simp: filter_empty_conv)
  ultimately show ?thesis by simp
qed

lemma tree_inv_internal_nodes:
  assumes "tree_inv m t"
  shows "internal_nodes t = [0..<nat (num_leaves t - 1)]"
proof -
  have z: "sizes_ok m t" and sl: "slots_ok t" using assms by (simp_all add: tree_inv_def)
  have len: "length (left_child t) = nat (m - 1)" and le: "num_leaves t \<le> m"
    using z by (simp_all add: sizes_ok_def)
  show ?thesis
    unfolding internal_nodes_def
  proof (rule filter_upt_below)
    show "nat (num_leaves t - 1) \<le> length (left_child t)" using len le by simp
  next
    fix i assume "i < length (left_child t)"
    then show "populated t i = (i < nat (num_leaves t - 1))"
      using sl by (auto simp: slots_ok_def populated_def split: if_splits)
  qed
qed

lemma reachable_inv:
  assumes "Tree_new m = Inr t0" "valid_splits t0 as" "Splits t0 as = Inr t"
  shows "tree_inv m t"
  using Splits_inv[OF tree_inv_fresh[OF assms(1)] assms(2)] assms(3) by auto

lemma example_run:
  "\<exists>t0 t1 t2. (Tree_new 3 :: error + int Tree) = Inr t0 \<and>
     Split_call t0 args0 = Inr (t1, 1) \<and> Split_call t1 args1 = Inr (t2, 2) \<and>
     valid_splits t0 [args0] \<and> Splits t0 [args0] = Inr t1 \<and>
     valid_splits t0 [args0, args1] \<and> Splits t0 [args0, args1] = Inr t2 \<and>
     valid_split t1 1 \<and> num_leaves t1 = 2 \<and> num_leaves t2 = 3 \<and>
     left_child t1 ! 0 = - 1 \<and> right_child t1 ! 0 = - 2 \<and>
     leaf_parent t1 ! 0 = 0 \<and> leaf_parent t1 ! 1 = 0"
proof -
  obtain t0 t1 :: "int Tree" where t0: "Tree_new 3 = Inr t0"
    and s0: "Split t0 0 2 NumericalBin 7 5 15 11 12 3 4 9 = Inr (t1, 1)"
    and f1: "num_leaves t1 = 2" "left_child t1 ! 0 = - 1" "right_child t1 ! 0 = - 2"
      "leaf_parent t1 ! 0 = 0" "leaf_parent t1 ! 1 = 0"
    using fresh_split_fields[of 3, where ?'f = int and feature = 2 and bin_type = NumericalBin
        and threshold_bin = 7 and real_feature = 5 and threshold_float = 15
        and left_value = 11 and right_value = 12 and left_cnt = 3 and right_cnt = 4
        and gain = 9]
    by auto
  have c0: "Split_call t0 args0 = Inr (t1, 1)"
    using s0 by (simp add: Split_call_def args0_def)
  have i0: "tree_inv 3 t0" using t0 by (rule tree_inv_fresh)
  have v0: "valid_split t0 (arg_leaf args0)"
    by (simp add: valid_split_def args0_def fresh_fields[OF t0])
  have vs0: "valid_splits t0 [args0]" using v0 c0 by simp
  have r0: "Splits t0 [args0] = Inr t1" using c0 by simp
  have i1: "tree_inv 3 t1" using t0 vs0 r0 by (rule reachable_inv)
  have m1: "max_leaves t1 = Some 3" using i1 by (simp add: tree_inv_def sizes_ok_def)
  have v1: "valid_split t1 1" by (simp add: valid_split_def f1 m1)
  obtain t2 where s1: "Split t1 1 1 CategoricalBin 3 4 25 21 22 1 3 8 = Inr (t2, num_leaves t1)"
    and n2: "num_leaves t2 = num_leaves t1 + 1"
    using tree_inv_Split[OF i1 v1] by blast
  have c1: "Split_call t1 args1 = Inr (t2, 2)"
    using s1 f1 by (simp add: Split_call_def args1_def)
  have vs1: "valid_splits t0 [args0, args1]"
    using v0 c0 v1 c1 by (simp add: args1_def)
  have r1: "Splits t0 [args0, args1] = Inr t2" using c0 c1 by simp
  show ?thesis
    using t0 c0 c1 vs0 r0 vs1 r1 v1 f1 n2 by auto
qed

subsection \<open>The first split\<close>

text \<open>
  C3. A tree freshly constructed with \<open>max_leaves \<ge> 2\<close> has one leaf, leaf 0, at depth 1
  and without a parent. \<open>Split\<close> of leaf 0 is defined on it, returns 1 and leaves a tree
  with two leaves, whose node 0 has the children \<open>-1\<close> and \<open>-2\<close>, whose leaves 0 and 1
  have the parent 0, and whose leaf 1 is one level below the depth leaf 0 had.
\<close>

theorem first_split:
  "2 \<le> m \<Longrightarrow>
   \<exists>t0 t. (Tree_new m :: error + ('f::zero) Tree) = Inr t0 \<and>
     num_leaves t0 = 1 \<and> leaf_depth t0 ! 0 = 1 \<and> leaf_parent t0 ! 0 = - 1 \<and>
     Split t0 0 feature bin_type threshold_bin real_feature threshold_float
        left_value right_value left_cnt right_cnt gain = Inr (t, 1) \<and>
     num_leaves t = 2 \<and> left_child t ! 0 = - 1 \<and> right_child t ! 0 = - 2 \<and>
     leaf_parent t ! 0 = 0 \<and> leaf_parent t ! 1 = 0 \<and>
     leaf_depth t ! 1 = leaf_depth t0 ! 0 + 1"
  by (rule fresh_split_fields)

theorem first_split_witness:
  "(2::int) \<le> 2 \<and>
   (\<exists>t0 t. (Tree_new 2 :: error + int Tree) = Inr t0 \<and>
     num_leaves t0 = 1 \<and> leaf_depth t0 ! 0 = 1 \<and> leaf_parent t0 ! 0 = - 1 \<and>
     Split t0 0 2 NumericalBin 7 5 15 11 12 3 4 9 = Inr (t, 1) \<and>
     num_leaves t = 2 \<and> left_child t ! 0 = - 1 \<and> right_child t ! 0 = - 2 \<and>
     leaf_parent t ! 0 = 0 \<and> leaf_parent t ! 1 = 0 \<and>
     leaf_depth t ! 1 = leaf_depth t0 ! 0 + 1)"
proof -
  have h: "(2::int) \<le> 2" by simp
  show ?thesis
    using h first_split[OF h, where ?'f = int and feature = 2 and bin_type = NumericalBin
        and threshold_bin = 7 and real_feature = 5 and threshold_float = 15
        and left_value = 11 and right_value = 12 and left_cnt = 3 and right_cnt = 4
        and gain = 9]
    by blast
qed

subsection \<open>What the new node keeps of the leaf\<close>

lemma data_size_t_id: "- (2 ^ 31) \<le> x \<Longrightarrow> x < 2 ^ 31 \<Longrightarrow> data_size_t x = x"
  by (simp add: data_size_t_def)

lemma data_size_t_range: "- (2 ^ 31) \<le> data_size_t x \<and> data_size_t x < 2 ^ 31"
proof -
  define y where "y = (x + 2 ^ 31) mod (2 ^ 32 :: int)"
  have "0 \<le> y" "y < 2 ^ 32" by (simp_all add: y_def)
  moreover have "(2 ^ 32 :: int) = 2 ^ 31 + 2 ^ 31" by simp
  ultimately have "- (2 ^ 31) \<le> y - 2 ^ 31 \<and> y - 2 ^ 31 < 2 ^ 31" by linarith
  then show ?thesis by (simp add: data_size_t_def y_def)
qed

lemma Split_new_node_count:
  assumes "Split t leaf feature bin_type threshold_bin real_feature threshold_float
        left_value right_value left_cnt right_cnt gain = Inr (t', r)"
  shows "internal_count t' ! nat (num_leaves t - 1) = data_size_t (left_cnt + right_cnt)"
proof -
  have d: "Split_defined t leaf" using assms by (rule Split_Inr_defined)
  have r: "nat (num_leaves t - 1) < length (internal_count t)"
    using d by (auto simp: Split_defined_def in_range_def Let_def)
  show ?thesis using assms r by (auto simp add: Split_closed[OF d])
qed

text \<open>
  The sum at the edge of the type: the counts \<open>2147483647\<close> and \<open>1\<close> leave
  \<open>- 2147483648\<close> in the new node, as the 32-bit addition does.
\<close>

lemma Split_count_wraps:
  "\<exists>t t'. (Tree_new 2 :: error + int Tree) = Inr t \<and>
     Split t 0 2 NumericalBin 7 5 15 11 12 2147483647 1 9 = Inr (t', 1) \<and>
     internal_count t' ! nat (num_leaves t - 1) = - 2147483648"
proof -
  obtain t t' where t: "(Tree_new 2 :: error + int Tree) = Inr t"
    and s: "Split t 0 2 NumericalBin 7 5 15 11 12 2147483647 1 9 = Inr (t', 1)"
    using fresh_split_ex[of 2] by blast
  have "internal_count t' ! nat (num_leaves t - 1) = - 2147483648"
    unfolding Split_new_node_count[OF s] by (simp add: data_size_t_def)
  then show ?thesis using t s by blast
qed

text \<open>
  C4, as the code has it. After every call of \<open>Split\<close> that is defined, the new internal
  node's \<open>internal_value\<close> is the value the split leaf had before the call, and its
  \<open>internal_count\<close> is the \<open>data_size_t\<close> sum of the two row counts the caller passes:
  a 32-bit value, and \<open>left_cnt + right_cnt\<close> exactly whenever that sum fits in
  \<open>data_size_t\<close>. The leaf's own \<open>leaf_count\<close> is not read.
\<close>

theorem Split_audit_trail:
  "Split t leaf feature bin_type threshold_bin real_feature threshold_float
        left_value right_value left_cnt right_cnt gain = Inr (t', r) \<Longrightarrow>
   internal_value t' ! nat (num_leaves t - 1) = leaf_value t ! nat leaf \<and>
   internal_count t' ! nat (num_leaves t - 1) = data_size_t (left_cnt + right_cnt) \<and>
   - (2 ^ 31) \<le> internal_count t' ! nat (num_leaves t - 1) \<and>
   internal_count t' ! nat (num_leaves t - 1) < 2 ^ 31 \<and>
   (- (2 ^ 31) \<le> left_cnt + right_cnt \<and> left_cnt + right_cnt < 2 ^ 31 \<longrightarrow>
      internal_count t' ! nat (num_leaves t - 1) = left_cnt + right_cnt)"
proof -
  assume a: "Split t leaf feature bin_type threshold_bin real_feature threshold_float
        left_value right_value left_cnt right_cnt gain = Inr (t', r)"
  have d: "Split_defined t leaf" using a by (rule Split_Inr_defined)
  have r: "nat (num_leaves t - 1) < length (internal_value t)"
    using d by (auto simp: Split_defined_def in_range_def Let_def)
  have v: "internal_value t' ! nat (num_leaves t - 1) = leaf_value t ! nat leaf"
    using a r by (auto simp add: Split_closed[OF d])
  note c = Split_new_node_count[OF a]
  show ?thesis
    using v c data_size_t_range[of "left_cnt + right_cnt"]
      data_size_t_id[of "left_cnt + right_cnt"]
    by simp
qed

theorem Split_audit_trail_witness:
  "- (2 ^ 31) \<le> (3::int) + 4 \<and> (3::int) + 4 < 2 ^ 31 \<and>
   (\<exists>t t'. (Tree_new 2 :: error + int Tree) = Inr t \<and>
     Split t 0 2 NumericalBin 7 5 15 11 12 3 4 9 = Inr (t', 1) \<and>
     internal_value t' ! nat (num_leaves t - 1) = leaf_value t ! nat 0 \<and>
     internal_count t' ! nat (num_leaves t - 1) = data_size_t (3 + 4) \<and>
     internal_count t' ! nat (num_leaves t - 1) = 3 + 4)"
proof -
  obtain t t' where t: "(Tree_new 2 :: error + int Tree) = Inr t"
    and s: "Split t 0 2 NumericalBin 7 5 15 11 12 3 4 9 = Inr (t', 1)"
    using fresh_split_ex[of 2] by blast
  have b: "- (2 ^ 31) \<le> (3::int) + 4" "(3::int) + 4 < 2 ^ 31" by simp_all
  show ?thesis using b t s Split_audit_trail[OF s] by blast
qed

text \<open>
  The claim as the spec words it, that \<open>internal_count\<close> is the \<open>leaf_count\<close> the leaf
  had before the call, fails on the first split of a fresh tree: the count of leaf 0 is
  still the 0 of the constructor, and the node gets \<open>3 + 4\<close>.
\<close>

theorem Split_audit_trail_counterexample:
  "\<exists>t t'. (Tree_new 2 :: error + int Tree) = Inr t \<and>
     Split t 0 2 NumericalBin 7 5 15 11 12 3 4 9 = Inr (t', 1) \<and>
     leaf_count t ! nat 0 = 0 \<and>
     internal_count t' ! nat (num_leaves t - 1) = 7 \<and>
     internal_count t' ! nat (num_leaves t - 1) \<noteq> leaf_count t ! nat 0"
proof -
  obtain t t' where t: "(Tree_new 2 :: error + int Tree) = Inr t"
    and s: "Split t 0 2 NumericalBin 7 5 15 11 12 3 4 9 = Inr (t', 1)"
    using fresh_split_ex[of 2] by blast
  have c: "leaf_count t ! nat 0 = 0" by (simp add: fresh_fields[OF t])
  have i: "internal_count t' ! nat (num_leaves t - 1) = 7"
    unfolding Split_new_node_count[OF s] by (simp add: data_size_t_def)
  show ?thesis using t s c i by auto
qed

subsection \<open>Growth\<close>

text \<open>
  C2. From a freshly constructed tree, every sequence of \<open>n\<close> valid calls of \<open>Split\<close>
  (each on a live leaf, with room for one more leaf) runs without leaving a vector, and
  leaves a tree with \<open>1 + n\<close> leaves. The calls write the internal nodes
  \<open>0, ..., n - 1\<close> in this order; these are exactly the node slots that hold a node
  afterwards, and their number is \<open>num_leaves - 1\<close>.
\<close>

theorem growth_invariant:
  "Tree_new m = Inr t0 \<Longrightarrow> valid_splits t0 as \<Longrightarrow>
   \<exists>t. Splits t0 as = Inr t \<and>
     num_leaves t = 1 + int (length as) \<and>
     new_nodes t0 as = map int [0..<length as] \<and>
     internal_nodes t = [0..<length as] \<and>
     int (length (internal_nodes t)) = num_leaves t - 1"
proof -
  assume t0: "Tree_new m = Inr t0" and v: "valid_splits t0 as"
  have i0: "tree_inv m t0" using t0 by (rule tree_inv_fresh)
  obtain t where r: "Splits t0 as = Inr t" and i: "tree_inv m t"
    and n: "num_leaves t = num_leaves t0 + int (length as)"
    and nn: "new_nodes t0 as = map (\<lambda>k. num_leaves t0 - 1 + int k) [0..<length as]"
    using Splits_inv[OF i0 v] by blast
  have n0: "num_leaves t0 = 1" using t0 by (rule fresh_fields)
  have "internal_nodes t = [0..<length as]"
    using tree_inv_internal_nodes[OF i] n n0 by simp
  then show ?thesis using r n nn n0 by simp
qed


theorem growth_invariant_witness:
  "\<exists>t0 t. (Tree_new 3 :: error + int Tree) = Inr t0 \<and> valid_splits t0 [args0, args1] \<and>
     Splits t0 [args0, args1] = Inr t \<and> num_leaves t = 3 \<and>
     new_nodes t0 [args0, args1] = [0, 1] \<and> internal_nodes t = [0, 1] \<and>
     length (internal_nodes t) = 2"
proof -
  obtain t0 t2 :: "int Tree" where t0: "Tree_new 3 = Inr t0"
    and vs: "valid_splits t0 [args0, args1]" and r: "Splits t0 [args0, args1] = Inr t2"
    using example_run by blast
  have u: "[0..<2] = [0, Suc 0]" by (simp add: upt_rec)
  show ?thesis
    using t0 vs r growth_invariant[OF t0 vs] by (auto simp add: u)
qed

subsection \<open>The parent of the split leaf\<close>

text \<open>
  C5. In a tree grown from a fresh one by valid calls, a valid call of \<open>Split\<close> on a
  leaf that has a parent changes exactly one child link of the parent: the one that holds
  the leaf's reference \<open>~leaf\<close>, which becomes the new node's id; the parent's other
  link does not hold the reference and keeps its value. The child links of every node
  other than the parent and the new node are unchanged.
\<close>

theorem parent_patching:
  assumes t0: "Tree_new m = Inr t0" and vs: "valid_splits t0 as" and r: "Splits t0 as = Inr t"
    and v: "valid_split t leaf" and p0: "0 \<le> leaf_parent t ! nat leaf"
  shows "\<exists>t'. Split t leaf feature bin_type threshold_bin real_feature threshold_float
        left_value right_value left_cnt right_cnt gain = Inr (t', num_leaves t) \<and>
     (let parent = nat (leaf_parent t ! nat leaf); new_node_idx = num_leaves t - 1 in
      parent \<noteq> nat new_node_idx \<and>
      (if left_child t ! parent = NOT leaf
       then right_child t ! parent \<noteq> NOT leaf \<and>
            left_child t' ! parent = new_node_idx \<and>
            left_child t' ! parent \<noteq> left_child t ! parent \<and>
            right_child t' ! parent = right_child t ! parent
       else right_child t ! parent = NOT leaf \<and>
            right_child t' ! parent = new_node_idx \<and>
            right_child t' ! parent \<noteq> right_child t ! parent \<and>
            left_child t' ! parent = left_child t ! parent) \<and>
      (\<forall>j. j \<noteq> parent \<and> j \<noteq> nat new_node_idx \<longrightarrow>
         left_child t' ! j = left_child t ! j \<and> right_child t' ! j = right_child t ! j))"
proof -
  have inv: "tree_inv m t" using t0 vs r by (rule reachable_inv)
  have d: "Split_defined t leaf" using inv v by (rule valid_split_defined)
  obtain t' where s: "Split t leaf feature bin_type threshold_bin real_feature threshold_float
        left_value right_value left_cnt right_cnt gain = Inr (t', num_leaves t)"
    using tree_inv_Split[OF inv v] by blast
  note f = Split_fields[OF d s]
  define n where "n = num_leaves t"
  define p where "p = leaf_parent t ! nat leaf"
  have z: "sizes_ok m t" and lk: "links_ok t" using inv by (simp_all add: tree_inv_def)
  have len: "length (left_child t) = nat (m - 1)" "length (right_child t) = nat (m - 1)"
    and ml: "max_leaves t = Some m"
    using z by (simp_all add: sizes_ok_def)
  have b: "0 \<le> leaf" "leaf < n" "n < m"
    using v ml by (simp_all add: valid_split_def n_def)
  have pl: "p < n - 1"
    using lk b by (simp add: links_ok_def p_def n_def)
  have one: "(left_child t ! nat p = NOT leaf) \<noteq> (right_child t ! nat p = NOT leaf)"
    using lk b p0 by (auto simp add: links_ok_def p_def n_def dest!: spec[of _ "nat leaf"])
  have pn: "nat p \<noteq> nat (n - 1)" using pl p0 by (simp add: p_def)
  have pr: "nat p < length (left_child t)" "nat p < length (right_child t)"
    using pl b p0 len by (simp_all add: p_def)
  have n1: "1 \<le> n" using z by (simp add: sizes_ok_def n_def)
  have neg: "NOT leaf \<noteq> n - 1" using b by (simp add: not_int_def)
  have p0': "0 \<le> p" using p0 by (simp add: p_def)
  have fl: "left_child t' =
      (if left_child t ! nat p = NOT leaf then (left_child t)[nat p := n - 1] else left_child t)
      [nat (n - 1) := NOT leaf]"
    unfolding f(4) n_def[symmetric] p_def[symmetric] using p0' by simp
  have fr: "right_child t' =
      (if left_child t ! nat p \<noteq> NOT leaf then (right_child t)[nat p := n - 1]
       else right_child t)
      [nat (n - 1) := NOT n]"
    unfolding f(5) n_def[symmetric] p_def[symmetric] using p0' by simp
  have L: "left_child t' ! nat p =
      (if left_child t ! nat p = NOT leaf then n - 1 else left_child t ! nat p)"
    unfolding fl using pn pr by simp
  have R: "right_child t' ! nat p =
      (if left_child t ! nat p \<noteq> NOT leaf then n - 1 else right_child t ! nat p)"
    unfolding fr using pn pr by simp
  have other: "left_child t' ! j = left_child t ! j \<and> right_child t' ! j = right_child t ! j"
    if "j \<noteq> nat p" "j \<noteq> nat (n - 1)" for j
    unfolding fl fr using that by simp
  show ?thesis
    apply (rule exI[of _ t'])
    apply (simp only: s Let_def n_def[symmetric] p_def[symmetric] L R)
    using one neg pn other by auto
qed


theorem parent_patching_witness:
  "\<exists>t0 t. (Tree_new 3 :: error + int Tree) = Inr t0 \<and> valid_splits t0 [args0] \<and>
     Splits t0 [args0] = Inr t \<and> valid_split t 1 \<and> 0 \<le> leaf_parent t ! nat 1 \<and>
     left_child t ! 0 = NOT 0 \<and> right_child t ! 0 = NOT 1 \<and>
     (\<exists>t'. Split t 1 1 CategoricalBin 3 4 25 21 22 1 3 8 = Inr (t', 2) \<and>
        right_child t' ! 0 = 1 \<and> left_child t' ! 0 = left_child t ! 0)"
proof -
  obtain t0 t1 :: "int Tree" where t0: "Tree_new 3 = Inr t0"
    and vs: "valid_splits t0 [args0]" and r: "Splits t0 [args0] = Inr t1"
    and v: "valid_split t1 1" and f: "num_leaves t1 = 2" "leaf_parent t1 ! 1 = 0"
      "left_child t1 ! 0 = - 1" "right_child t1 ! 0 = - 2"
    using example_run by blast
  have p: "0 \<le> leaf_parent t1 ! nat 1" using f(2) by simp
  show ?thesis
    using t0 vs r v p f
      parent_patching[OF t0 vs r v p, where feature = 1 and bin_type = CategoricalBin
        and threshold_bin = 3 and real_feature = 4 and threshold_float = 25
        and left_value = 21 and right_value = 22 and left_cnt = 1 and right_cnt = 3
        and gain = 8]
    by (auto simp add: Let_def)
qed

section \<open>The child reference\<close>

lemma NodeToJSON_leaf:
  "0 \<le> L \<Longrightarrow> leaf_defined t L \<Longrightarrow> NodeToJSON io t (NOT L) = Some (Inr (leaf_object io t L))"
  by (subst NodeToJSON.simps) (simp add: not_int_def)

lemma NodeToJSON_no_result:
  assumes "NodeToJSON io t index = Some y"
  shows "\<not> (index = 0 \<and> node_defined t 0 \<and> left_child t ! 0 = 0)"
proof (rule NodeToJSON.raw_induct[where
      P = "\<lambda>io t index y. \<not> (index = 0 \<and> node_defined t 0 \<and> left_child t ! 0 = 0)",
      OF _ assms])
  fix f :: "'a text_io \<Rightarrow> 'a Tree \<Rightarrow> int \<Rightarrow> (error + string) option"
  fix io t index y
  assume IH: "\<And>io t index y. f io t index = Some y \<Longrightarrow>
      \<not> (index = 0 \<and> node_defined t 0 \<and> left_child t ! 0 = 0)"
  assume step: "(if 0 \<le> index
      then if \<not> node_defined t index then Some (Inl Undefined_Behaviour)
           else Option.bind (f io t (left_child t ! nat index))
                 (\<lambda>l. case l of Inl e \<Rightarrow> Some (Inl e)
                      | Inr ls \<Rightarrow>
                          Option.bind (f io t (right_child t ! nat index))
                           (\<lambda>r. case r of Inl e \<Rightarrow> Some (Inl e)
                                | Inr rs \<Rightarrow> Some (Inr (node_object io t index ls rs))))
      else let index = NOT index
           in if \<not> leaf_defined t index then Some (Inl Undefined_Behaviour)
              else Some (Inr (leaf_object io t index))) = Some y"
  show "\<not> (index = 0 \<and> node_defined t 0 \<and> left_child t ! 0 = 0)"
  proof
    assume a: "index = 0 \<and> node_defined t 0 \<and> left_child t ! 0 = 0"
    then obtain l where "f io t 0 = Some l"
      using step by (auto simp: bind_eq_Some_conv)
    then show False using IH a by blast
  qed
qed

lemma NodeToJSON_root_None:
  "node_defined t 0 \<Longrightarrow> left_child t ! 0 = 0 \<Longrightarrow> NodeToJSON io t 0 = None"
  using NodeToJSON_no_result[of io t 0] by (cases "NodeToJSON io t 0") auto

lemma NodeToJSON_root_undefined:
  "\<not> node_defined t 0 \<Longrightarrow> NodeToJSON io t 0 = Some (Inl Undefined_Behaviour)"
  by (subst NodeToJSON.simps) simp

lemma fresh_node_defined:
  "Tree_new m = Inr t \<Longrightarrow> node_defined t 0 = (2 \<le> m)"
  by (auto simp: Tree_new_def node_defined_def in_range_def vector_def split: if_splits)

text \<open>
  C6. A leaf id \<open>L \<ge> 0\<close> is written into a child link as \<open>~L\<close>, which is
  \<open>- (L + 1)\<close> and negative; complementing again gives \<open>L\<close> back, and a larger leaf
  id has a smaller reference. \<open>Split\<close> writes the references of the split leaf and of
  the new leaf into the links of the new node in this form, and \<open>NodeToJSON\<close> reads a
  negative reference \<open>~L\<close> as leaf \<open>L\<close>.
\<close>

theorem child_reference_encoding:
  "0 \<le> L \<Longrightarrow>
   NOT L = - (L + 1) \<and> NOT L < 0 \<and> NOT (NOT L) = L \<and>
   (L < L' \<longrightarrow> NOT L' < NOT L) \<and>
   (Split t leaf feature bin_type threshold_bin real_feature threshold_float
        left_value right_value left_cnt right_cnt gain = Inr (t', r) \<longrightarrow>
      r = num_leaves t \<and>
      left_child t' ! nat (num_leaves t - 1) = NOT leaf \<and>
      right_child t' ! nat (num_leaves t - 1) = NOT r) \<and>
   (leaf_defined t L \<longrightarrow> NodeToJSON io t (NOT L) = Some (Inr (leaf_object io t L)))"
proof -
  assume L: "0 \<le> L"
  have enc: "NOT L = - (L + 1) \<and> NOT L < 0 \<and> NOT (NOT L) = L \<and> (L < L' \<longrightarrow> NOT L' < NOT L)"
    using L by (simp add: not_int_def)
  have split: "r = num_leaves t \<and>
      left_child t' ! nat (num_leaves t - 1) = NOT leaf \<and>
      right_child t' ! nat (num_leaves t - 1) = NOT r"
    if s: "Split t leaf feature bin_type threshold_bin real_feature threshold_float
        left_value right_value left_cnt right_cnt gain = Inr (t', r)"
  proof -
    have d: "Split_defined t leaf" using s by (rule Split_Inr_defined)
    have b: "nat (num_leaves t - 1) < length (left_child t)"
      "nat (num_leaves t - 1) < length (right_child t)"
      using d by (auto simp: Split_defined_def in_range_def Let_def)
    show ?thesis
      using b by (simp add: Split_fields[OF d s])
  qed
  show ?thesis
    using enc split NodeToJSON_leaf[OF L] by blast
qed

theorem child_reference_encoding_witness:
  "(0::int) \<le> 0 \<and> NOT (0::int) = - 1 \<and> NOT (0::int) < 0 \<and> NOT (NOT (0::int)) = 0 \<and>
   (0::int) < 1 \<and> NOT (1::int) < NOT 0 \<and>
   (\<exists>t t'. (Tree_new 2 :: error + int Tree) = Inr t \<and>
      Split t 0 2 NumericalBin 7 5 15 11 12 3 4 9 = Inr (t', 1) \<and>
      left_child t' ! nat (num_leaves t - 1) = NOT 0 \<and>
      right_child t' ! nat (num_leaves t - 1) = NOT 1 \<and>
      leaf_defined t 0 \<and>
      NodeToJSON int_io t (NOT 0) = Some (Inr (leaf_object int_io t 0)))"
proof -
  obtain t t' where t: "(Tree_new 2 :: error + int Tree) = Inr t"
    and s: "Split t 0 2 NumericalBin 7 5 15 11 12 3 4 9 = Inr (t', 1)"
    using fresh_split_ex[of 2] by blast
  have d: "leaf_defined t 0"
    using fresh_fields(10)[OF t] by (simp add: leaf_defined_def in_range_def sizes_ok_def)
  have h: "(0::int) \<le> 0" by simp
  show ?thesis
    using t s d
      child_reference_encoding[OF h, where L' = 1 and t = t and t' = t' and r = 1
        and leaf = 0 and feature = 2 and bin_type = NumericalBin and threshold_bin = 7
        and real_feature = 5 and threshold_float = 15 and left_value = 11
        and right_value = 12 and left_cnt = 3 and right_cnt = 4 and gain = 9
        and io = int_io]
    by auto
qed

section \<open>JSON export of a tree without a split\<close>

text \<open>
  C8, as the code behaves. \<open>ToJSON\<close> calls \<open>NodeToJSON(0)\<close> whatever the number of
  leaves. On a freshly constructed tree index 0 is taken for an internal node: with
  \<open>max_leaves = 1\<close> the node vectors are empty and the first subscript is outside them;
  with \<open>max_leaves \<ge> 2\<close> the left child link of slot 0 is the 0 of the constructor, so
  the call invokes itself on index 0 again and never returns. In neither case is a leaf
  object produced.
\<close>

theorem ToJSON_unsplit:
  "Tree_new m = Inr t \<Longrightarrow>
   num_leaves t = 1 \<and>
   ToJSON io t = (if m = 1 then Some (Inl Undefined_Behaviour) else None) \<and>
   ToJSON io t \<noteq> Some (Inr s)"
proof -
  assume t: "Tree_new m = Inr t"
  have m: "1 \<le> m" using t by (rule fresh_fields)
  have l: "left_child t = replicate (nat (m - 1)) 0" using t by (rule fresh_fields)
  show ?thesis
  proof (cases "m = 1")
    case True
    then have "\<not> node_defined t 0" using fresh_node_defined[OF t] by simp
    then show ?thesis
      using True by (simp add: ToJSON_def NodeToJSON_root_undefined fresh_fields[OF t])
  next
    case False
    then have m2: "2 \<le> m" using m by simp
    have "node_defined t 0" using fresh_node_defined[OF t] m2 by simp
    moreover have "left_child t ! 0 = 0" using l m2 by simp
    ultimately have "NodeToJSON io t 0 = None" by (rule NodeToJSON_root_None)
    then show ?thesis
      using False by (simp add: ToJSON_def fresh_fields[OF t])
  qed
qed

theorem ToJSON_unsplit_witness:
  "\<exists>t. (Tree_new 2 :: error + int Tree) = Inr t \<and> num_leaves t = 1 \<and>
     ToJSON int_io t = None"
proof -
  obtain t where t: "(Tree_new 2 :: error + int Tree) = Inr t"
    using Tree_new_Inr[of 2] by auto
  show ?thesis
    using t ToJSON_unsplit[OF t, of int_io "[]"] by auto
qed

section \<open>The text form: splitting, joining and numbers\<close>

lemma Split_str_nonempty: "Split_str s d \<noteq> []"
  by (induction s) (auto simp: Let_def)

lemma Split_str_append: "Split_str (a @ d # b) d = Split_str a d @ Split_str b d"
  by (induction a) (auto simp: Split_str_nonempty Let_def)

lemma Split_str_no_delim: "d \<notin> set s \<Longrightarrow> Split_str s d = [s]"
  by (induction s) (auto simp: Let_def)

lemma c_str_id: "CHR 0x00 \<notin> set s \<Longrightarrow> c_str s = s"
  by (auto simp: c_str_def takeWhile_eq_all_conv)

lemma c_str_append:
  "c_str (a @ b) = (if CHR 0x00 \<in> set a then c_str a else a @ c_str b)"
  by (auto simp: c_str_def takeWhile_append)

lemma c_str_no_nul: "CHR 0x00 \<notin> set (c_str s)"
  unfolding c_str_def by (induction s) auto

lemma Trim_id: "s \<noteq> [] \<Longrightarrow> \<not> is_space (hd s) \<Longrightarrow> \<not> is_space (last s) \<Longrightarrow> Trim s = s"
proof -
  assume a: "s \<noteq> []" "\<not> is_space (hd s)" "\<not> is_space (last s)"
  have 1: "dropWhile is_space s = s" using a by (cases s) auto
  obtain x xs where r: "rev s = x # xs" using a by (cases "rev s") auto
  have x: "x = last s" using r a by (metis hd_rev list.sel(1))
  have 2: "dropWhile is_space (rev s) = rev s"
    unfolding r using a(3) by (simp add: x)
  show ?thesis by (simp add: Trim_def 1 2)
qed

lemma Trim_Nil: "Trim [] = []"
  by (simp add: Trim_def)

lemma join_with_Cons: "join_with d (x # xs) = (if xs = [] then x else x @ d # join_with d xs)"
  by (cases xs) auto

lemma Split_str_join:
  "xs \<noteq> [] \<Longrightarrow> \<forall>x \<in> set xs. d \<notin> set x \<Longrightarrow> Split_str (join_with d xs) d = xs"
proof (induction xs)
  case Nil
  then show ?case by simp
next
  case (Cons x xs)
  show ?case
  proof (cases "xs = []")
    case True
    then show ?thesis using Cons.prems by (simp add: Split_str_no_delim)
  next
    case False
    then show ?thesis
      using Cons by (simp add: join_with_Cons Split_str_append Split_str_no_delim)
  qed
qed

lemma set_join_with: "set (join_with d xs) \<subseteq> insert d (\<Union> (set ` set xs))"
  by (induction d xs rule: join_with.induct) auto

lemma hd_join_with: "xs \<noteq> [] \<Longrightarrow> hd xs \<noteq> [] \<Longrightarrow> hd (join_with d xs) = hd (hd xs)"
  by (cases xs) (auto simp: join_with_Cons)

lemma join_with_eq_Nil: "\<forall>x \<in> set xs. x \<noteq> [] \<Longrightarrow> (join_with d xs = []) = (xs = [])"
  by (cases xs) (auto simp: join_with_Cons)

lemma last_join_with:
  "xs \<noteq> [] \<Longrightarrow> \<forall>x \<in> set xs. x \<noteq> [] \<Longrightarrow> last (join_with d xs) = last (last xs)"
proof (induction xs)
  case Nil
  then show ?case by simp
next
  case (Cons x xs)
  then show ?case by (cases "xs = []") (simp_all add: join_with_Cons join_with_eq_Nil)
qed
subsection \<open>Decimal numbers\<close>

lemma digit_cases:
  "d < 10 \<Longrightarrow> d = 0 \<or> d = 1 \<or> d = 2 \<or> d = 3 \<or> d = 4 \<or> d = 5 \<or> d = 6 \<or> d = 7 \<or> d = 8 \<or> d = (9::nat)"
  by presburger

lemma digit_char_props:
  assumes "d < 10"
  shows "is_digit (digit_char d)" "of_char (digit_char d) - 48 = d"
  using digit_cases[OF assms]
  by (elim disjE; simp add: digit_char_def is_digit_def)+


lemma is_digit_plain: "is_digit c \<Longrightarrow> plain_char c"
  by (auto simp: is_digit_def plain_char_def is_space_def)

lemma is_digit_not_minus: "is_digit c \<Longrightarrow> c \<noteq> CHR ''-''"
  by (auto simp: is_digit_def)

lemma show_nat_digits: "list_all is_digit (show_nat n)"
proof (induction n rule: show_nat.induct)
  case (1 n)
  show ?case
  proof (cases "n < 10")
    case True
    then show ?thesis by (subst show_nat.simps) (simp add: digit_char_props)
  next
    case False
    then show ?thesis
      using 1 by (subst show_nat.simps) (simp add: digit_char_props)
  qed
qed

lemma show_nat_nonempty: "show_nat n \<noteq> []"
  by (subst show_nat.simps) simp

lemma digits_val_snoc:
  "list_all is_digit xs \<Longrightarrow> is_digit c \<Longrightarrow>
   digits_val acc (xs @ [c]) = digits_val acc xs * 10 + (of_char c - 48)"
  by (induction xs arbitrary: acc) auto

lemma digits_val_show_nat: "digits_val 0 (show_nat n) = n"
proof (induction n rule: show_nat.induct)
  case (1 n)
  show ?case
  proof (cases "n < 10")
    case True
    then show ?thesis by (subst show_nat.simps) (simp add: digit_char_props)
  next
    case False
    then show ?thesis
      using 1 by (subst show_nat.simps)
        (simp add: digits_val_snoc show_nat_digits digit_char_props)
  qed
qed

lemma Atoi_show_int: "Atoi (show_int i) = i"
proof (cases "i < 0")
  case True
  then show ?thesis by (simp add: Atoi_def show_int_def digits_val_show_nat)
next
  case False
  obtain c r where cr: "show_nat (nat i) = c # r"
    using show_nat_nonempty[of "nat i"] by (cases "show_nat (nat i)") auto
  have "is_digit c" using show_nat_digits[of "nat i"] cr by simp
  then have "c \<noteq> CHR ''-''" by (rule is_digit_not_minus)
  then show ?thesis
    using False cr digits_val_show_nat[of "nat i"] by (simp add: Atoi_def show_int_def)
qed

lemma token_show_int: "token (show_int i)"
proof -
  have "list_all plain_char (show_nat n)" for n
    using show_nat_digits[of n] by (induction "show_nat n") (auto simp: list_all_iff is_digit_plain)
  moreover have "plain_char CHR ''-''" by (simp add: plain_char_def is_space_def)
  ultimately show ?thesis by (simp add: token_def show_int_def show_nat_nonempty)
qed
subsection \<open>The lines of ToString and the map of the constructor\<close>

lemma token_props:
  assumes "token s"
  shows "s \<noteq> []" "CHR ''='' \<notin> set s" "CHR 0x00 \<notin> set s" "CHR 0x0A \<notin> set s"
    "CHR '' '' \<notin> set s" "\<not> is_space (hd s)" "\<not> is_space (last s)"
proof -
  have ne: "s \<noteq> []" and pl: "\<And>c. c \<in> set s \<Longrightarrow> plain_char c"
    using assms by (auto simp: token_def list_all_iff)
  show "s \<noteq> []" by (rule ne)
  show "CHR ''='' \<notin> set s" using pl by (auto simp: plain_char_def)
  show "CHR 0x00 \<notin> set s" using pl by (auto simp: plain_char_def)
  show "CHR 0x0A \<notin> set s" using pl by (auto simp: plain_char_def is_space_def)
  show "CHR '' '' \<notin> set s" using pl by (auto simp: plain_char_def is_space_def)
  show "\<not> is_space (hd s)" using pl[of "hd s"] ne by (simp add: plain_char_def)
  show "\<not> is_space (last s)" using pl[of "last s"] ne by (simp add: plain_char_def)
qed

lemma token_value_ok: "token s \<Longrightarrow> value_ok s"
  by (simp add: value_ok_def token_props)

lemma value_ok_join:
  assumes "\<forall>x \<in> set xs. token x"
  shows "value_ok (join_with CHR '' '' xs)"
proof (cases "xs = []")
  case True
  then show ?thesis by (simp add: value_ok_def)
next
  case False
  have ne: "\<forall>x \<in> set xs. x \<noteq> []" using assms by (auto simp: token_props)
  have sub: "set (join_with CHR '' '' xs) \<subseteq> insert CHR '' '' (\<Union> (set ` set xs))"
    by (rule set_join_with)
  have 1: "CHR ''='' \<notin> set (join_with CHR '' '' xs)"
    using sub assms by (auto dest: token_props(2))
  have 2: "CHR 0x00 \<notin> set (join_with CHR '' '' xs)"
    using sub assms by (auto dest: token_props(3))
  have 3: "CHR 0x0A \<notin> set (join_with CHR '' '' xs)"
    using sub assms by (auto dest: token_props(4))
  have "hd xs \<in> set xs" "last xs \<in> set xs" using False by simp_all
  then have t: "token (hd xs)" "token (last xs)" using assms by auto
  have 4: "\<not> is_space (hd (join_with CHR '' '' xs))"
    using hd_join_with[OF False, of "CHR '' ''"] t(1) by (simp add: token_props)
  have 5: "\<not> is_space (last (join_with CHR '' '' xs))"
    using last_join_with[OF False ne, of "CHR '' ''"] t(2) by (simp add: token_props)
  show ?thesis using 1 2 3 4 5 by (simp add: value_ok_def)
qed

lemma value_ok_ArrayToString:
  "\<forall>x. token (sh x) \<Longrightarrow> value_ok (ArrayToString sh arr n CHR '' '')"
  unfolding ArrayToString_def by (rule value_ok_join) simp

lemma ArrayToString_empty: "n \<le> 0 \<Longrightarrow> ArrayToString sh arr n d = []"
  by (simp add: ArrayToString_def)

lemma ArrayToString_nonempty:
  assumes "\<forall>x. token (sh x)" "0 < n" "arr \<noteq> []"
  shows "ArrayToString sh arr n d \<noteq> []"
proof -
  have "take (nat n) arr \<noteq> []" using assms by simp
  moreover have "\<forall>x \<in> set (map sh (take (nat n) arr)). x \<noteq> []"
    using assms(1) by (auto simp: token_props)
  ultimately show ?thesis
    unfolding ArrayToString_def by (simp add: join_with_eq_Nil)
qed

lemma StringToArray_ArrayToString:
  assumes tok: "\<forall>x. token (sh x)" and inv: "\<forall>x. rd (sh x) = x"
    and n: "0 < n" and len: "nat n \<le> length arr"
  shows "StringToArray rd (ArrayToString sh arr n CHR '' '') CHR '' '' n = take (nat n) arr"
proof -
  define xs where "xs = take (nat n) arr"
  have lx: "length xs = nat n" using len by (simp add: xs_def)
  have ne: "map sh xs \<noteq> []" using lx n by auto
  have v: "value_ok (join_with CHR '' '' (map sh xs))"
    using tok by (intro value_ok_join) simp
  have jn: "join_with CHR '' '' (map sh xs) \<noteq> []"
    using ne tok by (simp add: join_with_eq_Nil token_props)
  have c: "c_str (join_with CHR '' '' (map sh xs)) = join_with CHR '' '' (map sh xs)"
    using v jn by (intro c_str_id) (simp add: value_ok_def)
  have sp: "Split_str (join_with CHR '' '' (map sh xs)) CHR '' '' = map sh xs"
    using ne tok by (intro Split_str_join) (auto simp: token_props)
  have "map rd (map sh xs) = xs" using inv by (simp add: map_idI)
  then show ?thesis
    using n lx by (simp add: StringToArray_def ArrayToString_def xs_def[symmetric] c sp)
qed

lemma parse_line_kv:
  assumes k: "token k" and v: "value_ok v"
  shows "parse_line (k @ CHR ''='' # v) m = kv_put (k, v) m"
proof -
  have vn: "CHR 0x00 \<notin> set v" "CHR ''='' \<notin> set v" using v by (auto simp: value_ok_def)
  have c: "c_str (k @ CHR ''='' # v) = k @ CHR ''='' # v"
    using k vn by (intro c_str_id) (simp add: token_props)
  have sp: "Split_str (k @ CHR ''='' # v) CHR ''='' = [k, v]"
    using k vn by (simp add: Split_str_append Split_str_no_delim token_props)
  have tk: "Trim k = k" using k by (intro Trim_id) (simp_all add: token_props)
  have tv: "Trim v = v"
  proof (cases "v = []")
    case True
    then show ?thesis by (simp add: Trim_Nil)
  next
    case False
    then show ?thesis using v by (intro Trim_id) (simp_all add: value_ok_def)
  qed
  show ?thesis
    using k unfolding parse_line_def c sp
    by (simp add: Let_def tk tv kv_put_def token_props)
qed

lemma parse_line_malformed: "malformed l \<Longrightarrow> parse_line l m = m"
  by (auto simp: malformed_def parse_line_def Let_def)

lemma malformed_Nil: "malformed []"
  by (simp add: malformed_def c_str_def)

lemma kv_line_ok_chars:
  assumes "token (fst p)" "value_ok (snd p)"
  shows "CHR 0x00 \<notin> set (fst p @ ''='' @ snd p)" "CHR 0x0A \<notin> set (fst p @ ''='' @ snd p)"
  using assms by (auto simp: value_ok_def token_props)

lemma Split_lines:
  assumes "list_all (\<lambda>p. token (fst p) \<and> value_ok (snd p)) ps"
  shows "Split_str (c_str (concat (map kv_line ps) @ rest)) CHR 0x0A =
         map (\<lambda>p. fst p @ ''='' @ snd p) ps @ Split_str (c_str rest) CHR 0x0A"
  using assms
proof (induction ps)
  case Nil
  then show ?case by simp
next
  case (Cons p ps)
  have ok: "token (fst p)" "value_ok (snd p)" using Cons.prems by simp_all
  have ih: "Split_str (c_str (concat (map kv_line ps) @ rest)) CHR 0x0A =
         map (\<lambda>p. fst p @ ''='' @ snd p) ps @ Split_str (c_str rest) CHR 0x0A"
    using Cons by simp
  define body where "body = fst p @ ''='' @ snd p"
  have b: "CHR 0x00 \<notin> set body" "CHR 0x0A \<notin> set body"
    using kv_line_ok_chars[OF ok] by (simp_all add: body_def)
  have e: "concat (map kv_line (p # ps)) @ rest =
           body @ CHR 0x0A # (concat (map kv_line ps) @ rest)"
    by (simp add: kv_line_def body_def endl_def)
  have c: "c_str (body @ CHR 0x0A # (concat (map kv_line ps) @ rest)) =
        body @ CHR 0x0A # c_str (concat (map kv_line ps) @ rest)"
    using b(1) c_str_append[of "body @ [CHR 0x0A]" "concat (map kv_line ps) @ rest"] by simp
  have "Split_str (body @ CHR 0x0A # c_str (concat (map kv_line ps) @ rest)) CHR 0x0A =
        body # Split_str (c_str (concat (map kv_line ps) @ rest)) CHR 0x0A"
    using b(2) by (simp add: Split_str_append Split_str_no_delim)
  then show ?case
    unfolding e c ih by (simp add: body_def)
qed

lemma fold_parse_lines:
  assumes "list_all (\<lambda>p. token (fst p) \<and> value_ok (snd p)) ps"
  shows "fold parse_line (map (\<lambda>p. fst p @ ''='' @ snd p) ps @ ls) m =
         fold parse_line ls (fold kv_put ps m)"
  using assms
  by (induction ps arbitrary: m) (simp_all add: parse_line_kv)

lemma key_vals_of_lines:
  assumes "list_all (\<lambda>p. token (fst p) \<and> value_ok (snd p)) ps"
  shows "key_vals_of (concat (map kv_line ps) @ endl) = fold kv_put ps Map.empty"
proof -
  have "Split_str (c_str endl) CHR 0x0A = [[], []]"
    by (simp add: endl_def c_str_def)
  then show ?thesis
    unfolding key_vals_of_def Split_lines[OF assms] fold_parse_lines[OF assms]
    by (simp add: parse_line_malformed malformed_Nil)
qed

lemma fold_kv_put:
  "distinct (map fst ps) \<Longrightarrow>
   fold kv_put ps m k =
     (case map_of ps k of None \<Rightarrow> m k | Some v \<Rightarrow> if v = [] then m k else Some v)"
proof (induction ps arbitrary: m)
  case Nil
  then show ?case by simp
next
  case (Cons p ps)
  obtain k' v' where p: "p = (k', v')" by (cases p)
  have d: "distinct (map fst ps)" and nk: "k' \<notin> fst ` set ps"
    using Cons.prems by (simp_all add: p)
  have none: "map_of ps k' = None" using nk by (simp add: map_of_eq_None_iff)
  show ?case
    using Cons.IH[OF d, of "kv_put p m"] none
    by (auto simp: p kv_put_def split: option.splits)
qed
lemma ToString_as_lines: "ToString io t = concat (map kv_line (ToString_lines io t)) @ endl"
  by (simp add: ToString_def ToString_lines_def kv_line_def)

lemma token_keys:
  "token ''num_leaves''" "token ''split_feature''" "token ''split_gain''" "token ''threshold''"
  "token ''decision_type''" "token ''left_child''" "token ''right_child''" "token ''leaf_parent''"
  "token ''leaf_value''" "token ''leaf_count''" "token ''internal_value''"
  "token ''internal_count''"
  by (simp_all add: token_def plain_char_def is_space_def)

lemma ToString_lines_ok:
  assumes "\<forall>x. token (show_float io x)"
  shows "list_all (\<lambda>p. token (fst p) \<and> value_ok (snd p)) (ToString_lines io t)"
  using assms
  by (simp add: ToString_lines_def token_keys value_ok_ArrayToString token_show_int
      token_value_ok)

lemma ToString_lines_distinct: "distinct (map fst (ToString_lines io t))"
  by (simp add: ToString_lines_def)

lemma key_vals_ToString:
  assumes "\<forall>x. token (show_float io x)"
  shows "key_vals_of (ToString io t) k =
     (case map_of (ToString_lines io t) k of
        None \<Rightarrow> None
      | Some v \<Rightarrow> if v = [] then None else Some v)"
  unfolding ToString_as_lines key_vals_of_lines[OF ToString_lines_ok[OF assms]]
    fold_kv_put[OF ToString_lines_distinct]
  by simp


lemma key_vals_ToString_Some:
  assumes "\<forall>x. token (show_float io x)"
    and "map_of (ToString_lines io t) k = Some v" and "v \<noteq> []"
  shows "key_vals_of (ToString io t) k = Some v"
  using assms(2,3) by (simp add: key_vals_ToString[OF assms(1)])

lemma round_trip_fields:
  assumes inv: "\<forall>x. read_float io (show_float io x) = x"
    and tok: "\<forall>x. token (show_float io x)"
    and z: "sizes_ok m t" and n2: "2 \<le> num_leaves t"
  shows "Tree_of_string io (ToString io t) =
    Inr \<lparr> max_leaves = None,
          num_leaves = num_leaves t,
          left_child = take (nat (num_leaves t - 1)) (left_child t),
          right_child = take (nat (num_leaves t - 1)) (right_child t),
          split_feature = [],
          split_feature_real = take (nat (num_leaves t - 1)) (split_feature_real t),
          threshold_in_bin = [],
          threshold = take (nat (num_leaves t - 1)) (threshold t),
          decision_type = take (nat (num_leaves t - 1)) (decision_type t),
          split_gain = take (nat (num_leaves t - 1)) (split_gain t),
          leaf_parent = take (nat (num_leaves t)) (leaf_parent t),
          leaf_value = take (nat (num_leaves t)) (leaf_value t),
          leaf_count = take (nat (num_leaves t)) (leaf_count t),
          internal_value = take (nat (num_leaves t - 1)) (internal_value t),
          internal_count = take (nat (num_leaves t - 1)) (internal_count t),
          leaf_depth = [] \<rparr>"
proof -
  define n where "n = num_leaves t"
  have n: "0 < n - 1" "0 < n" using n2 by (simp_all add: n_def)
  have nm: "n \<le> m" using z by (simp add: sizes_ok_def n_def)
  have len: "nat (n - 1) \<le> length (left_child t)" "nat (n - 1) \<le> length (right_child t)"
    "nat (n - 1) \<le> length (split_feature_real t)" "nat (n - 1) \<le> length (threshold t)"
    "nat (n - 1) \<le> length (decision_type t)" "nat (n - 1) \<le> length (split_gain t)"
    "nat n \<le> length (leaf_parent t)" "nat n \<le> length (leaf_value t)"
    "nat n \<le> length (leaf_count t)" "nat (n - 1) \<le> length (internal_value t)"
    "nat (n - 1) \<le> length (internal_count t)"
    using z nm by (simp_all add: sizes_ok_def)
  have ne: "left_child t \<noteq> []" "right_child t \<noteq> []" "split_feature_real t \<noteq> []"
    "threshold t \<noteq> []" "decision_type t \<noteq> []" "split_gain t \<noteq> []" "leaf_parent t \<noteq> []"
    "leaf_value t \<noteq> []" "leaf_count t \<noteq> []" "internal_value t \<noteq> []"
    "internal_count t \<noteq> []"
    using len n by auto
  have ti: "\<forall>x. token (show_int x)" by (simp add: token_show_int)
  have ai: "\<forall>x. Atoi (show_int x) = x" by (simp add: Atoi_show_int)
  note K = key_vals_ToString_Some[OF tok, of t]
  have NE1: "arr \<noteq> [] \<Longrightarrow> ArrayToString sh arr (n - 1) CHR '' '' \<noteq> []"
    if "\<forall>x. token (sh x)" for sh :: "'b \<Rightarrow> string" and arr
    using ArrayToString_nonempty[OF that n(1)] by blast
  have NE0: "arr \<noteq> [] \<Longrightarrow> ArrayToString sh arr n CHR '' '' \<noteq> []"
    if "\<forall>x. token (sh x)" for sh :: "'b \<Rightarrow> string" and arr
    using ArrayToString_nonempty[OF that n(2)] by blast
  have k: "key_vals_of (ToString io t) ''num_leaves'' = Some (show_int n)"
    "key_vals_of (ToString io t) ''split_feature'' =
       Some (ArrayToString show_int (split_feature_real t) (n - 1) CHR '' '')"
    "key_vals_of (ToString io t) ''split_gain'' =
       Some (ArrayToString (show_float io) (split_gain t) (n - 1) CHR '' '')"
    "key_vals_of (ToString io t) ''threshold'' =
       Some (ArrayToString (show_float io) (threshold t) (n - 1) CHR '' '')"
    "key_vals_of (ToString io t) ''decision_type'' =
       Some (ArrayToString show_int (decision_type t) (n - 1) CHR '' '')"
    "key_vals_of (ToString io t) ''left_child'' =
       Some (ArrayToString show_int (left_child t) (n - 1) CHR '' '')"
    "key_vals_of (ToString io t) ''right_child'' =
       Some (ArrayToString show_int (right_child t) (n - 1) CHR '' '')"
    "key_vals_of (ToString io t) ''leaf_parent'' =
       Some (ArrayToString show_int (leaf_parent t) n CHR '' '')"
    "key_vals_of (ToString io t) ''leaf_value'' =
       Some (ArrayToString (show_float io) (leaf_value t) n CHR '' '')"
    "key_vals_of (ToString io t) ''leaf_count'' =
       Some (ArrayToString show_int (leaf_count t) n CHR '' '')"
    "key_vals_of (ToString io t) ''internal_value'' =
       Some (ArrayToString (show_float io) (internal_value t) (n - 1) CHR '' '')"
    "key_vals_of (ToString io t) ''internal_count'' =
       Some (ArrayToString show_int (internal_count t) (n - 1) CHR '' '')"
    by (rule K, simp add: ToString_lines_def n_def,
        simp add: NE1[OF ti] NE1[OF tok] NE0[OF ti] NE0[OF tok] ne
          token_props(1)[OF token_show_int])+
  have c: "c_str (show_int n) = show_int n"
    by (intro c_str_id) (simp add: token_props[OF token_show_int])
  note R = StringToArray_ArrayToString
  note rt =
    R[OF ti ai n(1) len(1)] R[OF ti ai n(1) len(2)] R[OF ti ai n(1) len(3)]
    R[OF tok inv n(1) len(4)] R[OF ti ai n(1) len(5)] R[OF tok inv n(1) len(6)]
    R[OF ti ai n(2) len(7)] R[OF tok inv n(2) len(8)] R[OF ti ai n(2) len(9)]
    R[OF tok inv n(1) len(10)] R[OF ti ai n(1) len(11)]
  show ?thesis
    unfolding Tree_of_string_def Let_def kv_count_def kv_at_def n_def[symmetric] k
    by (simp add: c Atoi_show_int rt)
qed

lemma unsplit_not_loadable:
  assumes tok: "\<forall>x. token (show_float io x)" and n: "num_leaves t = 1"
  shows "Tree_of_string io (ToString io t) = Inl Fatal"
proof -
  have "map_of (ToString_lines io t) ''split_feature'' = Some []"
    by (simp add: ToString_lines_def n ArrayToString_empty)
  then have "key_vals_of (ToString io t) ''split_feature'' = None"
    by (simp add: key_vals_ToString[OF tok])
  then show ?thesis
    by (simp add: Tree_of_string_def Let_def kv_count_def)
qed
lemma int_io_ok:
  "\<forall>x. read_float int_io (show_float int_io x) = x" "\<forall>x. token (show_float int_io x)"
  by (simp_all add: int_io_def Atoi_show_int token_show_int)

lemma reachable_num_leaves:
  assumes "Tree_new m = Inr t0" "valid_splits t0 as" "Splits t0 as = Inr t"
  shows "num_leaves t = 1 + int (length as)"
  using Splits_inv[OF tree_inv_fresh[OF assms(1)] assms(2)] assms(3)
    fresh_fields(3)[OF assms(1)]
  by auto

lemma example_round_trip:
  "\<exists>t0 t2 t'. (Tree_new 3 :: error + int Tree) = Inr t0 \<and>
     Splits t0 [args0, args1] = Inr t2 \<and>
     Tree_of_string int_io (ToString int_io t2) = Inr t'"
proof -
  obtain t0 t2 :: "int Tree" where t0: "Tree_new 3 = Inr t0"
    and vs: "valid_splits t0 [args0, args1]" and r: "Splits t0 [args0, args1] = Inr t2"
    and n: "num_leaves t2 = 3"
    using example_run by blast
  have z: "sizes_ok 3 t2"
    using reachable_inv[OF t0 vs r] by (simp add: tree_inv_def)
  have n2: "2 \<le> num_leaves t2" using n by simp
  show ?thesis
    using t0 r round_trip_fields[OF int_io_ok z n2] by blast
qed

section \<open>Writing a tree and reading it back\<close>

text \<open>
  C1, as the code has it. Let the text form of a float be a non-empty piece without
  white space, \<open>=\<close> or NUL, from which the parser gets the float back. For a tree grown
  from a fresh one by at least one valid call of \<open>Split\<close>, the constructor accepts the
  text \<open>ToString\<close> writes, and the tree it builds has the same \<open>num_leaves\<close> and the
  same twelve vectors over their implied lengths (\<open>num_leaves - 1\<close> elements for the
  node vectors, \<open>num_leaves\<close> for the leaf vectors).
\<close>

theorem text_round_trip:
  assumes inv: "\<forall>x. read_float io (show_float io x) = x"
    and tok: "\<forall>x. token (show_float io x)"
    and t0: "Tree_new m = Inr t0" and vs: "valid_splits t0 as" and r: "Splits t0 as = Inr t"
    and ne: "as \<noteq> []"
  shows "\<exists>t'. Tree_of_string io (ToString io t) = Inr t' \<and>
     num_leaves t' = num_leaves t \<and>
     split_feature_real t' = take (nat (num_leaves t - 1)) (split_feature_real t) \<and>
     split_gain t' = take (nat (num_leaves t - 1)) (split_gain t) \<and>
     threshold t' = take (nat (num_leaves t - 1)) (threshold t) \<and>
     decision_type t' = take (nat (num_leaves t - 1)) (decision_type t) \<and>
     left_child t' = take (nat (num_leaves t - 1)) (left_child t) \<and>
     right_child t' = take (nat (num_leaves t - 1)) (right_child t) \<and>
     leaf_parent t' = take (nat (num_leaves t)) (leaf_parent t) \<and>
     leaf_value t' = take (nat (num_leaves t)) (leaf_value t) \<and>
     leaf_count t' = take (nat (num_leaves t)) (leaf_count t) \<and>
     internal_value t' = take (nat (num_leaves t - 1)) (internal_value t) \<and>
     internal_count t' = take (nat (num_leaves t - 1)) (internal_count t)"
proof -
  have z: "sizes_ok m t"
    using reachable_inv[OF t0 vs r] by (simp add: tree_inv_def)
  have "1 \<le> int (length as)" using ne by (cases as) simp_all
  then have n2: "2 \<le> num_leaves t"
    unfolding reachable_num_leaves[OF t0 vs r] by linarith
  show ?thesis
    unfolding round_trip_fields[OF inv tok z n2] by simp
qed

theorem text_round_trip_witness:
  "(\<forall>x. read_float int_io (show_float int_io x) = x) \<and>
   (\<forall>x. token (show_float int_io x)) \<and>
   (\<exists>t0 t t'. Tree_new 3 = Inr t0 \<and> valid_splits t0 [args0, args1] \<and>
      Splits t0 [args0, args1] = Inr t \<and> [args0, args1] \<noteq> [] \<and>
      Tree_of_string int_io (ToString int_io t) = Inr t' \<and>
      num_leaves t' = num_leaves t \<and>
      left_child t' = take (nat (num_leaves t - 1)) (left_child t) \<and>
      leaf_value t' = take (nat (num_leaves t)) (leaf_value t))"
proof -
  obtain t0 t2 :: "int Tree" where t0: "Tree_new 3 = Inr t0"
    and vs: "valid_splits t0 [args0, args1]" and r: "Splits t0 [args0, args1] = Inr t2"
    using example_run by blast
  have ne: "[args0, args1] \<noteq> []" by simp
  show ?thesis
    using int_io_ok t0 vs r text_round_trip[OF int_io_ok t0 vs r ne] by blast
qed

text \<open>
  Without a split the claim fails. The tree of \<open>Tree(1)\<close> has empty node vectors, which
  are written as empty values; the constructor skips a line whose value is empty, and the
  load ends in \<open>Log::Fatal\<close> for the missing keys. (By \<open>unsplit_not_loadable\<close> the
  same holds for every tree with one leaf, since zero elements are written.)
\<close>

theorem text_round_trip_counterexample:
  "(\<forall>x. read_float int_io (show_float int_io x) = x) \<and>
   (\<forall>x. token (show_float int_io x)) \<and>
   (\<exists>t0. Tree_new 1 = Inr t0 \<and> valid_splits t0 [] \<and> Splits t0 [] = Inr t0 \<and>
      Tree_of_string int_io (ToString int_io t0) = Inl Fatal)"
proof -
  obtain t0 :: "int Tree" where t0: "Tree_new 1 = Inr t0"
    using Tree_new_Inr[of 1] by auto
  have "Tree_of_string int_io (ToString int_io t0) = Inl Fatal"
    using int_io_ok(2) fresh_fields(3)[OF t0] by (rule unsplit_not_loadable)
  then show ?thesis using int_io_ok t0 by auto
qed

section \<open>Errors of the constructor from a string\<close>

lemma fold_parse_line_filter:
  "fold parse_line ls m = fold parse_line (filter (\<lambda>l. \<not> malformed l) ls) m"
  by (induction ls arbitrary: m) (simp_all add: parse_line_malformed)

lemma Split_str_line:
  assumes "CHR 0x0A \<notin> set l" "CHR 0x00 \<notin> set l"
  shows "Split_str (c_str (l @ endl @ b)) CHR 0x0A = l # Split_str (c_str b) CHR 0x0A"
proof -
  have "c_str (l @ endl @ b) = l @ CHR 0x0A # c_str b"
    using assms(2) c_str_append[of "l @ [CHR 0x0A]" b] by (simp add: endl_def)
  then show ?thesis
    using assms(1) by (simp add: Split_str_append Split_str_no_delim)
qed

lemma key_vals_of_extra_line:
  assumes m: "malformed l" and nl: "CHR 0x0A \<notin> set l" and nul: "CHR 0x00 \<notin> set l"
    and a: "line_start a"
  shows "key_vals_of (a @ l @ endl @ b) = key_vals_of (a @ b)"
proof (cases "CHR 0x00 \<in> set a")
  case True
  then show ?thesis by (simp add: key_vals_of_def c_str_append)
next
  case False
  have l: "Split_str (c_str (l @ endl @ b)) CHR 0x0A = l # Split_str (c_str b) CHR 0x0A"
    using nl nul by (rule Split_str_line)
  show ?thesis
  proof (cases "a = []")
    case True
    then show ?thesis
      by (simp add: key_vals_of_def l parse_line_malformed[OF m])
  next
    case ne: False
    then have "last a = CHR 0x0A" using a by (simp add: line_start_def)
    then obtain a' where a': "a = a' @ [CHR 0x0A]"
      using ne by (metis append_butlast_last_id)
    have c: "c_str (a @ x) = a' @ CHR 0x0A # c_str x" for x
      using False c_str_append[of a x] by (simp add: a')
    show ?thesis
      unfolding key_vals_of_def c
      by (simp add: Split_str_append l parse_line_malformed[OF m])
  qed
qed

text \<open>
  C7. The constructor ends in \<open>Log::Fatal\<close> exactly when one of the twelve required
  keys is absent from the map the lines leave, and it returns a tree exactly when all
  are present. The map is the one the lines that are not malformed leave: a malformed
  line is skipped. So a malformed line (without NUL) added at the start of a line of any
  text changes neither the map nor the result of the load.
\<close>

theorem load_errors:
  "(Tree_of_string io str = Inl Fatal) = (\<exists>k \<in> set required_keys. key_vals_of str k = None) \<and>
   (\<exists>t. Tree_of_string io str = Inr t) = (\<forall>k \<in> set required_keys. key_vals_of str k \<noteq> None) \<and>
   key_vals_of str =
     fold parse_line (filter (\<lambda>l. \<not> malformed l) (Split_str (c_str str) CHR 0x0A)) Map.empty \<and>
   (malformed l \<and> CHR 0x0A \<notin> set l \<and> CHR 0x00 \<notin> set l \<and> line_start a \<longrightarrow>
      key_vals_of (a @ l @ endl @ b) = key_vals_of (a @ b) \<and>
      Tree_of_string io (a @ l @ endl @ b) = Tree_of_string io (a @ b))"
proof -
  have 1: "(Tree_of_string io str = Inl Fatal) =
      (\<exists>k \<in> set required_keys. key_vals_of str k = None)"
    by (auto simp: Tree_of_string_def Let_def kv_count_def required_keys_def
        split: option.splits)
  have 2: "(\<exists>t. Tree_of_string io str = Inr t) =
      (\<forall>k \<in> set required_keys. key_vals_of str k \<noteq> None)"
    by (auto simp: Tree_of_string_def Let_def kv_count_def required_keys_def
        split: option.splits)
  have 3: "key_vals_of str =
     fold parse_line (filter (\<lambda>l. \<not> malformed l) (Split_str (c_str str) CHR 0x0A)) Map.empty"
    unfolding key_vals_of_def by (rule fold_parse_line_filter)
  have 4: "key_vals_of (a @ l @ endl @ b) = key_vals_of (a @ b) \<and>
      Tree_of_string io (a @ l @ endl @ b) = Tree_of_string io (a @ b)"
    if "malformed l" "CHR 0x0A \<notin> set l" "CHR 0x00 \<notin> set l" "line_start a"
    using key_vals_of_extra_line[OF that] by (simp add: Tree_of_string_def)
  show ?thesis using 1 2 3 4 by blast
qed

theorem load_errors_witness:
  "malformed ''# a comment'' \<and> CHR 0x0A \<notin> set ''# a comment'' \<and>
   CHR 0x00 \<notin> set ''# a comment'' \<and> line_start [] \<and>
   (\<exists>t0 t2 t'. (Tree_new 3 :: error + int Tree) = Inr t0 \<and>
      Splits t0 [args0, args1] = Inr t2 \<and>
      Tree_of_string int_io (ToString int_io t2) = Inr t' \<and>
      Tree_of_string int_io ([] @ ''# a comment'' @ endl @ ToString int_io t2) = Inr t')"
proof -
  obtain t0 t2 t' :: "int Tree" where t0: "Tree_new 3 = Inr t0"
    and r: "Splits t0 [args0, args1] = Inr t2"
    and l: "Tree_of_string int_io (ToString int_io t2) = Inr t'"
    using example_round_trip by blast
  have m: "malformed ''# a comment''" by (simp add: malformed_def c_str_def)
  have h: "CHR 0x0A \<notin> set ''# a comment''" "CHR 0x00 \<notin> set ''# a comment''" "line_start []"
    by (simp_all add: line_start_def)
  show ?thesis
    using m h t0 r l
      load_errors[where io = int_io and l = "''# a comment''" and a = "[]"
        and b = "ToString int_io t2" and str = "ToString int_io t2"]
    by auto
qed

section \<open>What a tree read from a string does not have\<close>

text \<open>
  C10. A tree the constructor builds from a string has empty \<open>leaf_depth\<close>,
  \<open>threshold_in_bin\<close> and \<open>split_feature\<close> vectors and no \<open>max_leaves\<close>, whatever the
  text; \<open>ToString\<close> does not depend on these four members; and a freshly constructed
  tree has \<open>max_leaves\<close> set and \<open>leaf_depth\<close> of \<open>max_leaves\<close> elements with
  depth 1 for leaf 0.
\<close>

theorem deserialized_frame:
  "(Tree_of_string (io :: ('f::zero) text_io) str = Inr t \<longrightarrow>
      leaf_depth t = [] \<and> threshold_in_bin t = [] \<and> split_feature t = [] \<and>
      max_leaves t = None) \<and>
   ToString io (t'\<lparr>leaf_depth := d, threshold_in_bin := b, split_feature := f, max_leaves := ml\<rparr>) =
     ToString io t' \<and>
   ((Tree_new m :: error + 'f Tree) = Inr t0 \<longrightarrow>
      max_leaves t0 = Some m \<and> length (leaf_depth t0) = nat m \<and> leaf_depth t0 ! 0 = 1)"
proof -
  have a: "leaf_depth t = [] \<and> threshold_in_bin t = [] \<and> split_feature t = [] \<and>
      max_leaves t = None" if "Tree_of_string io str = Inr t"
    using that unfolding Tree_of_string_def Let_def by (auto split: if_splits)
  have b: "ToString io (t'\<lparr>leaf_depth := d, threshold_in_bin := b, split_feature := f, max_leaves := ml\<rparr>) =
     ToString io t'"
    by (simp add: ToString_def)
  have c: "max_leaves t0 = Some m \<and> length (leaf_depth t0) = nat m \<and> leaf_depth t0 ! 0 = 1"
    if "(Tree_new m :: error + 'f Tree) = Inr t0"
    using fresh_fields[OF that] by (simp add: sizes_ok_def nat_eq_iff)
  show ?thesis using a b c by blast
qed

theorem deserialized_frame_witness:
  "\<exists>t0 t2 t'. (Tree_new 3 :: error + int Tree) = Inr t0 \<and>
     Splits t0 [args0, args1] = Inr t2 \<and>
     Tree_of_string int_io (ToString int_io t2) = Inr t' \<and>
     leaf_depth t' = [] \<and> threshold_in_bin t' = [] \<and> split_feature t' = [] \<and>
     max_leaves t' = None \<and>
     max_leaves t0 = Some 3 \<and> length (leaf_depth t0) = 3 \<and> leaf_depth t0 ! 0 = 1"
proof -
  obtain t0 t2 t' :: "int Tree" where t0: "Tree_new 3 = Inr t0"
    and r: "Splits t0 [args0, args1] = Inr t2"
    and l: "Tree_of_string int_io (ToString int_io t2) = Inr t'"
    using example_round_trip by blast
  show ?thesis
    using t0 r l
      deserialized_frame[where io = int_io and str = "ToString int_io t2" and t = t'
        and t' = t2 and d = "[]" and b = "[]" and f = "[]" and ml = None
        and m = 3 and t0 = t0]
    by auto
qed

section \<open>Batch scoring and scoring row by row\<close>

lemma add_score_length: "add_score cast t gl s i = Inr s' \<Longrightarrow> length s' = length s"
  by (auto simp: add_score_def split: if_splits)

lemma score_rows_append:
  "score_rows cast t gl (xs @ ys) s =
     (case score_rows cast t gl xs s of Inl e \<Rightarrow> Inl e | Inr s' \<Rightarrow> score_rows cast t gl ys s')"
  by (induction xs arbitrary: s) (auto split: sum.splits)

lemma score_loop_rows:
  "score_loop cast t gl i e s = score_rows cast t gl [i..e - 1] s"
proof (induction cast t gl i e s rule: score_loop.induct)
  case (1 cast t gl i e s)
  show ?case
  proof (cases "i < e")
    case True
    then have u: "[i..e - 1] = i # [i + 1..e - 1]" by (simp add: upto_rec1)
    show ?thesis
      using True 1 by (subst score_loop.simps) (auto simp: u split: sum.splits)
  next
    case False
    then show ?thesis by (subst score_loop.simps) simp
  qed
qed

lemma Threading_For_rows:
  "Threading_For chunks (score_loop cast t gl) s = score_rows cast t gl (chunk_rows chunks) s"
proof (induction chunks arbitrary: s)
  case Nil
  then show ?case by (simp add: chunk_rows_def)
next
  case (Cons c chunks)
  obtain a b where c: "c = (a, b)" by (cases c)
  have r: "chunk_rows (c # chunks) = [a..b - 1] @ chunk_rows chunks"
    by (simp add: chunk_rows_def c)
  show ?case
    unfolding r score_rows_append
    using Cons by (auto simp: c score_loop_rows split: sum.splits)
qed

text \<open>The buffer after the rows of a list, each row once.\<close>

lemma score_rows_distinct:
  assumes "distinct rs"
  shows "score_rows cast t gl rs s =
    (if \<forall>i \<in> set rs. in_range s i \<and> in_range (leaf_value t) (gl i)
     then Inr (map (\<lambda>j. if int j \<in> set rs
                          then s ! j + cast (leaf_value t ! nat (gl (int j)))
                          else s ! j) [0..<length s])
     else Inl Undefined_Behaviour)"
  using assms
proof (induction rs arbitrary: s)
  case Nil
  then show ?case by (simp add: map_nth)
next
  case (Cons i rs)
  have d: "distinct rs" and ni: "i \<notin> set rs" using Cons.prems by simp_all
  show ?case
  proof (cases "in_range s i \<and> in_range (leaf_value t) (gl i)")
    case False
    then show ?thesis by (auto simp: add_score_def)
  next
    case True
    define s1 where "s1 = s[nat i := s ! nat i + cast (leaf_value t ! nat (gl i))]"
    have a: "add_score cast t gl s i = Inr s1" using True by (simp add: add_score_def s1_def)
    have l: "length s1 = length s" by (simp add: s1_def)
    have ir: "in_range s1 k = in_range s k" for k by (simp add: in_range_def l)
    have i0: "0 \<le> i" "nat i < length s" using True by (auto simp: in_range_def)
    have pt: "(if int j \<in> set rs then s1 ! j + cast (leaf_value t ! nat (gl (int j))) else s1 ! j) =
        (if int j \<in> set (i # rs) then s ! j + cast (leaf_value t ! nat (gl (int j))) else s ! j)"
      if "j < length s" for j
    proof (cases "j = nat i")
      case True
      then have "int j = i" using i0 by simp
      then show ?thesis using ni i0 True by (simp add: s1_def)
    next
      case False
      then have "int j \<noteq> i" by auto
      then show ?thesis using False by (simp add: s1_def)
    qed
    show ?thesis
      using True a Cons.IH[OF d, of s1] pt by (auto simp: ir l)
  qed
qed

lemma score_rows_same_set:
  "distinct rs \<Longrightarrow> distinct rs' \<Longrightarrow> set rs = set rs' \<Longrightarrow>
   score_rows cast t gl rs s = score_rows cast t gl rs' s"
  by (simp add: score_rows_distinct)


lemma score_loop_used_rows:
  "0 \<le> i \<Longrightarrow> e \<le> int (length used) \<Longrightarrow>
   score_loop_used cast t gl used i e s =
     score_rows cast t gl (map (\<lambda>k. used ! nat k) [i..e - 1]) s"
proof (induction cast t gl used i e s rule: score_loop_used.induct)
  case (1 cast t gl used i e s)
  show ?case
  proof (cases "i < e")
    case True
    then have u: "[i..e - 1] = i # [i + 1..e - 1]" by (simp add: upto_rec1)
    have r: "in_range used i" using True 1(2,3) by (simp add: in_range_def)
    show ?thesis
      using True 1 r
      by (subst score_loop_used.simps) (auto simp: u add_score_used_def split: sum.splits)
  next
    case False
    then show ?thesis by (subst score_loop_used.simps) simp
  qed
qed

lemma Threading_For_used_rows:
  assumes "list_all (\<lambda>(a, b). a < b \<and> 0 \<le> a \<and> b \<le> int (length used)) chunks"
  shows "Threading_For chunks (chunk_used nf cast t gl used) s =
     score_rows cast t gl (map (\<lambda>k. used ! nat k) (chunk_rows chunks)) s"
  using assms
proof (induction chunks arbitrary: s)
  case Nil
  then show ?case by (simp add: chunk_rows_def)
next
  case (Cons c chunks)
  obtain a b where c: "c = (a, b)" by (cases c)
  have ab: "a < b" "0 \<le> a" "b \<le> int (length used)" using Cons.prems by (simp_all add: c)
  have rest: "list_all (\<lambda>(a, b). a < b \<and> 0 \<le> a \<and> b \<le> int (length used)) chunks"
    using Cons.prems by simp
  have r: "chunk_rows (c # chunks) = [a..b - 1] @ chunk_rows chunks"
    by (simp add: chunk_rows_def c)
  have ir: "in_range used a" using ab by (simp add: in_range_def)
  have cu: "chunk_used nf cast t gl used a b s =
      score_rows cast t gl (map (\<lambda>k. used ! nat k) [a..b - 1]) s"
    using ir by (simp add: chunk_used_def score_loop_used_rows[OF ab(2,3)])
  show ?case
    unfolding r map_append score_rows_append
    using Cons.IH[OF rest] by (auto simp: c cu split: sum.splits)
qed

lemma chunks_of_bounds:
  assumes "chunks_of n chunks"
  shows "list_all (\<lambda>(a, b). a < b \<and> 0 \<le> a \<and> b \<le> n) chunks"
proof -
  have ne: "\<And>a b. (a, b) \<in> set chunks \<Longrightarrow> a < b"
    and st: "set (chunk_rows chunks) = {0..<n}"
    using assms by (auto simp: chunks_of_def list_all_iff)
  have "a < b \<and> 0 \<le> a \<and> b \<le> n" if m: "(a, b) \<in> set chunks" for a b
  proof -
    have ab: "a < b" using ne[OF m] .
    have "set [a..b - 1] \<subseteq> set (chunk_rows chunks)"
      using m by (force simp: chunk_rows_def)
    then have sub: "{a..b - 1} \<subseteq> {0..<n}" using st by simp
    have "a \<in> {a..b - 1}" "b - 1 \<in> {a..b - 1}" using ab by simp_all
    then have "a \<in> {0..<n}" "b - 1 \<in> {0..<n}" using sub by blast+
    then show ?thesis using ab by simp
  qed
  then show ?thesis by (auto simp: list_all_iff)
qed

lemma AddPredictionToScore_rows:
  assumes "chunks_of num_data chunks"
  shows "AddPredictionToScore chunks cast t gl score =
     score_rows cast t gl [0..num_data - 1] score"
proof -
  have d: "distinct (chunk_rows chunks)" and s: "set (chunk_rows chunks) = {0..<num_data}"
    using assms by (simp_all add: chunks_of_def)
  have "set [0..num_data - 1] = {0..<num_data}" by auto
  then show ?thesis
    unfolding AddPredictionToScore_def Threading_For_rows
    using d s by (intro score_rows_same_set) simp_all
qed

lemma AddPredictionToScore_used_rows:
  assumes c: "chunks_of (int (length used)) chunks" and du: "distinct used"
  shows "AddPredictionToScore_used chunks nf cast t gl used score =
     score_rows cast t gl used score"
proof -
  have d: "distinct (chunk_rows chunks)"
    and s: "set (chunk_rows chunks) = {0..<int (length used)}"
    using c by (simp_all add: chunks_of_def)
  have inj: "inj_on (\<lambda>k. used ! nat k) (set (chunk_rows chunks))"
    unfolding s using du
    by (auto simp: inj_on_def nth_eq_iff_index_eq)
  have dm: "distinct (map (\<lambda>k. used ! nat k) (chunk_rows chunks))"
    using d inj by (simp add: distinct_map)
  have "(\<lambda>k. used ! nat k) ` {0..<int (length used)} = set used"
  proof (intro equalityI subsetI)
    fix x assume "x \<in> (\<lambda>k. used ! nat k) ` {0..<int (length used)}"
    then show "x \<in> set used" by auto
  next
    fix x assume "x \<in> set used"
    then obtain j where j: "j < length used" "used ! j = x" by (auto simp: in_set_conv_nth)
    then have "int j \<in> {0..<int (length used)}" "used ! nat (int j) = x" by simp_all
    then show "x \<in> (\<lambda>k. used ! nat k) ` {0..<int (length used)}" by blast
  qed
  then have sm: "set (map (\<lambda>k. used ! nat k) (chunk_rows chunks)) = set used"
    using s by simp
  have b: "list_all (\<lambda>(a, b). a < b \<and> 0 \<le> a \<and> b \<le> int (length used)) chunks"
    using c by (rule chunks_of_bounds)
  show ?thesis
    unfolding AddPredictionToScore_used_def Threading_For_used_rows[OF b]
    using dm du sm by (rule score_rows_same_set)
qed

lemma example_leaf_value:
  "\<exists>t0 t. (Tree_new 3 :: error + int Tree) = Inr t0 \<and>
     Split_call t0 args0 = Inr (t, 1) \<and> leaf_value t = [11, 12, 0]"
proof -
  have m: "(2::int) \<le> 3" by simp
  obtain t0 t :: "int Tree" where t0: "Tree_new 3 = Inr t0"
    and s: "Split t0 0 2 NumericalBin 7 5 15 11 12 3 4 9 = Inr (t, 1)"
    using fresh_split_ex[OF m] by blast
  have d: "Split_defined t0 0" using s by (rule Split_Inr_defined)
  have "leaf_value t = [11, 12, 0]"
    using s unfolding Split_closed[OF d]
    by (auto simp: fresh_fields[OF t0] numeral_3_eq_3)
  then show ?thesis using t0 s by (auto simp: Split_call_def args0_def)
qed

lemma example_chunks:
  "chunks_of 2 [(1, 2), (0, 1)]" "chunks_of 1 [(0, 1)]"
  by (auto simp: chunks_of_def chunk_rows_def)

text \<open>
  C9. Whatever chunks \<open>Threading::For\<close> makes of the range and in whatever order they
  run, \<open>AddPredictionToScore\<close> over the rows \<open>0, ..., num_data - 1\<close> gives what the
  rows give one after the other, each adding the value of its leaf to its own slot; when
  that is defined, every slot of a row holds its old score plus the leaf value and the
  other slots are unchanged. The overload with row indices, run on one set of rows and
  then on a disjoint second one, gives what one run on any list of their union gives.
  An undefined subscript in one is an undefined subscript in the other.
\<close>

theorem batch_scoring:
  "(chunks_of num_data chunks \<longrightarrow>
      AddPredictionToScore chunks cast t GetLeaf score =
        score_rows cast t GetLeaf [0..num_data - 1] score) \<and>
   (score_rows cast t GetLeaf [0..num_data - 1] score = Inr score' \<longrightarrow>
      length score' = length score \<and>
      (\<forall>i. 0 \<le> i \<and> i < num_data \<longrightarrow>
         score' ! nat i = score ! nat i + cast (leaf_value t ! nat (GetLeaf i))) \<and>
      (\<forall>j. num_data \<le> int j \<and> j < length score \<longrightarrow> score' ! j = score ! j)) \<and>
   (distinct used1 \<and> distinct used2 \<and> set used1 \<inter> set used2 = {} \<and>
    distinct used \<and> set used = set used1 \<union> set used2 \<and>
    chunks_of (int (length used1)) chunks1 \<and> chunks_of (int (length used2)) chunks2 \<and>
    chunks_of (int (length used)) chunks' \<longrightarrow>
      (case AddPredictionToScore_used chunks1 num_features cast t GetLeaf used1 score of
         Inl e \<Rightarrow> Inl e
       | Inr score1 \<Rightarrow>
           AddPredictionToScore_used chunks2 num_features cast t GetLeaf used2 score1) =
      AddPredictionToScore_used chunks' num_features cast t GetLeaf used score)"
proof -
  have 1: "AddPredictionToScore chunks cast t GetLeaf score =
        score_rows cast t GetLeaf [0..num_data - 1] score" if "chunks_of num_data chunks"
    using that by (rule AddPredictionToScore_rows)
  have 2: "length score' = length score \<and>
      (\<forall>i. 0 \<le> i \<and> i < num_data \<longrightarrow>
         score' ! nat i = score ! nat i + cast (leaf_value t ! nat (GetLeaf i))) \<and>
      (\<forall>j. num_data \<le> int j \<and> j < length score \<longrightarrow> score' ! j = score ! j)"
    if r: "score_rows cast t GetLeaf [0..num_data - 1] score = Inr score'"
  proof -
    have d: "distinct [0..num_data - 1]" by simp
    have ok: "\<forall>i \<in> set [0..num_data - 1]. in_range score i \<and> in_range (leaf_value t) (GetLeaf i)"
      and s': "score' = map (\<lambda>j. if int j \<in> set [0..num_data - 1]
                          then score ! j + cast (leaf_value t ! nat (GetLeaf (int j)))
                          else score ! j) [0..<length score]"
      using r unfolding score_rows_distinct[OF d] by (auto split: if_splits)
    have a: "length score' = length score" by (simp add: s')
    have b: "score' ! nat i = score ! nat i + cast (leaf_value t ! nat (GetLeaf i))"
      if "0 \<le> i" "i < num_data" for i
    proof -
      have "in_range score i" using ok that by simp
      then have "nat i < length score" by (auto simp: in_range_def)
      then show ?thesis using that by (simp add: s')
    qed
    have c: "score' ! j = score ! j" if "num_data \<le> int j" "j < length score" for j
      using that by (simp add: s')
    show ?thesis using a b c by blast
  qed
  have 3: "(case AddPredictionToScore_used chunks1 num_features cast t GetLeaf used1 score of
         Inl e \<Rightarrow> Inl e
       | Inr score1 \<Rightarrow>
           AddPredictionToScore_used chunks2 num_features cast t GetLeaf used2 score1) =
      AddPredictionToScore_used chunks' num_features cast t GetLeaf used score"
    if h: "distinct used1" "distinct used2" "set used1 \<inter> set used2 = {}"
      "distinct used" "set used = set used1 \<union> set used2"
      "chunks_of (int (length used1)) chunks1" "chunks_of (int (length used2)) chunks2"
      "chunks_of (int (length used)) chunks'"
  proof -
    have "score_rows cast t GetLeaf (used1 @ used2) score = score_rows cast t GetLeaf used score"
      using h(1-5) by (intro score_rows_same_set) auto
    then show ?thesis
      unfolding AddPredictionToScore_used_rows[OF h(6) h(1)]
        AddPredictionToScore_used_rows[OF h(7) h(2)]
        AddPredictionToScore_used_rows[OF h(8) h(4)]
      by (simp add: score_rows_append)
  qed
  show ?thesis using 1 2 3 by blast
qed

theorem batch_scoring_witness:
  "chunks_of 2 [(1, 2), (0, 1)] \<and>
   distinct [1::int] \<and> distinct [0::int] \<and> set [1::int] \<inter> set [0] = {} \<and>
   distinct [0, 1::int] \<and> set [0, 1::int] = set [1] \<union> set [0] \<and>
   chunks_of (int (length [1::int])) [(0, 1)] \<and> chunks_of (int (length [0::int])) [(0, 1)] \<and>
   chunks_of (int (length [0, 1::int])) [(1, 2), (0, 1)] \<and>
   (\<exists>t0 t. (Tree_new 3 :: error + int Tree) = Inr t0 \<and> Split_call t0 args0 = Inr (t, 1) \<and>
      score_rows id t (\<lambda>i. 1 - i) [0..2 - 1] [100, 200] = Inr [112, 211::int] \<and>
      AddPredictionToScore [(1, 2), (0, 1)] id t (\<lambda>i. 1 - i) [100, 200] = Inr [112, 211::int] \<and>
      (case AddPredictionToScore_used [(0, 1)] 1 id t (\<lambda>i. 1 - i) [1] [100, 200::int] of
         Inl e \<Rightarrow> Inl e
       | Inr score1 \<Rightarrow> AddPredictionToScore_used [(0, 1)] 1 id t (\<lambda>i. 1 - i) [0] score1) =
      AddPredictionToScore_used [(1, 2), (0, 1)] 1 id t (\<lambda>i. 1 - i) [0, 1] [100, 200])"
proof -
  obtain t0 t :: "int Tree" where t0: "Tree_new 3 = Inr t0"
    and s: "Split_call t0 args0 = Inr (t, 1)" and lv: "leaf_value t = [11, 12, 0]"
    using example_leaf_value by blast
  have c: "chunks_of 2 [(1, 2), (0, 1)]" "chunks_of (int (length [1::int])) [(0, 1)]"
    "chunks_of (int (length [0::int])) [(0, 1)]"
    "chunks_of (int (length [0, 1::int])) [(1, 2), (0, 1)]"
    using example_chunks by simp_all
  have u: "[0..2 - 1] = [0, 1::int]" by (simp add: upto_rec1)
  have r: "score_rows id t (\<lambda>i. 1 - i) [0..2 - 1] [100, 200] = Inr [112, 211::int]"
    unfolding u by (simp add: add_score_def in_range_def lv)
  have h: "distinct [1::int]" "distinct [0::int]" "set [1::int] \<inter> set [0] = {}"
    "distinct [0, 1::int]" "set [0, 1::int] = set [1] \<union> set [0]"
    by auto
  show ?thesis
    using c h t0 s r
      batch_scoring[where num_data = 2 and chunks = "[(1, 2), (0, 1)]" and cast = id
        and t = t and GetLeaf = "\<lambda>i. 1 - i" and score = "[100, 200]"
        and score' = "[112, 211]" and ?used1.0 = "[1]" and ?used2.0 = "[0]"
        and used = "[0, 1]" and ?chunks1.0 = "[(0, 1)]" and ?chunks2.0 = "[(0, 1)]"
        and chunks' = "[(1, 2), (0, 1)]" and num_features = 1]
    by auto
qed

end
